theory Spec2Isabelle
  imports Main "HOL-Library.Char_ord"
begin

section \<open>Python values as the scraper sees them\<close>

text \<open>
  The scraper (\<^verbatim>\<open>kcbs_browser_scraper.py\<close>) works on the value that \<^verbatim>\<open>json.loads\<close>
  returns and on Python strings. A string is modelled as a list of 8-bit characters, read
  as the code points below 256; the character classes below are Python's classes
  restricted to that range. A decoded JSON object keeps its keys in insertion order, so it
  is an association list (a decoded object has no duplicate keys; lookups take the first
  entry). A float is identified by the text \<^verbatim>\<open>repr\<close> gives for it, which is all the
  scraper observes of a float (its truth value and its rendering). Messages printed to the
  console are not part of the model.
\<close>

datatype json =
    JNull
  | JBool bool
  | JInt int
  | JFloat string
  | JStr string
  | JArr "json list"
  | JObj "(string \<times> json) list"

datatype exn = TypeError | AttributeError | OverflowError | OSError | UnicodeEncodeError

definition squote :: char where
  "squote = CHR 0x27"

definition dquote :: char where
  "dquote = CHR 0x22"

definition backslash :: char where
  "backslash = CHR 0x5C"

text \<open>\<^verbatim>\<open>bool(v)\<close>: None, False, zero, and the empty string, list and dict are false.\<close>

fun truthy :: "json \<Rightarrow> bool" where
  "truthy JNull = False"
| "truthy (JBool b) = b"
| "truthy (JInt i) = (i \<noteq> 0)"
| "truthy (JFloat r) = (r \<noteq> ''0.0'' \<and> r \<noteq> ''-0.0'')"
| "truthy (JStr s) = (s \<noteq> [])"
| "truthy (JArr xs) = (xs \<noteq> [])"
| "truthy (JObj kv) = (kv \<noteq> [])"

text \<open>\<^verbatim>\<open>a or b\<close>: the first operand when it is true, else the second.\<close>

definition py_or :: "json \<Rightarrow> json \<Rightarrow> json" where
  "py_or a b = (if truthy a then a else b)"

text \<open>\<^verbatim>\<open>d.get(k, default)\<close> on a dict.\<close>

definition dict_get :: "(string \<times> json) list \<Rightarrow> string \<Rightarrow> json \<Rightarrow> json" where
  "dict_get d k dflt = (case map_of d k of Some v \<Rightarrow> v | None \<Rightarrow> dflt)"

text \<open>\<^verbatim>\<open>len(v)\<close>: defined on strings, lists and dicts; a TypeError on everything else.\<close>

fun py_len :: "json \<Rightarrow> exn + nat" where
  "py_len (JStr s) = Inr (length s)"
| "py_len (JArr xs) = Inr (length xs)"
| "py_len (JObj kv) = Inr (length kv)"
| "py_len _ = Inl TypeError"

text \<open>\<^verbatim>\<open>for x in v\<close>: the elements of a list, the characters of a string (each a string
  of length one), the keys of a dict; a TypeError on everything else.\<close>

fun py_iter :: "json \<Rightarrow> exn + json list" where
  "py_iter (JArr xs) = Inr xs"
| "py_iter (JStr s) = Inr (map (\<lambda>c. JStr [c]) s)"
| "py_iter (JObj kv) = Inr (map (\<lambda>e. JStr (fst e)) kv)"
| "py_iter _ = Inl TypeError"

subsection \<open>Strings\<close>

text \<open>Python's whitespace (\<^verbatim>\<open>str.isspace\<close>, also the class \<^verbatim>\<open>\s\<close> of \<^verbatim>\<open>re\<close>) below 256.\<close>

definition is_space :: "char \<Rightarrow> bool" where
  "is_space c \<longleftrightarrow> c \<in> set [CHR 0x09, CHR 0x0A, CHR 0x0B, CHR 0x0C, CHR 0x0D,
     CHR 0x1C, CHR 0x1D, CHR 0x1E, CHR 0x1F, CHR 0x20, CHR 0x85, CHR 0xA0]"

text \<open>The decimal digits (the class \<^verbatim>\<open>\d\<close> of \<^verbatim>\<open>re\<close>) below 256.\<close>

definition is_digit :: "char \<Rightarrow> bool" where
  "is_digit c \<longleftrightarrow> CHR ''0'' \<le> c \<and> c \<le> CHR ''9''"

definition strip :: "string \<Rightarrow> string" where
  "strip s = rev (dropWhile is_space (rev (dropWhile is_space s)))"

fun startswith :: "string \<Rightarrow> string \<Rightarrow> bool" where
  "startswith s [] = True"
| "startswith [] (p # ps) = False"
| "startswith (c # s) (p # ps) = (c = p \<and> startswith s ps)"

fun join :: "string \<Rightarrow> string list \<Rightarrow> string" where
  "join sep [] = []"
| "join sep [x] = x"
| "join sep (x # y # ys) = x @ sep @ join sep (y # ys)"

text \<open>\<^verbatim>\<open>str(n)\<close> for an integer.\<close>

definition digit_char :: "nat \<Rightarrow> char" where
  "digit_char d = ''0123456789abcdef'' ! d"

fun dec_nat :: "nat \<Rightarrow> string" where
  "dec_nat n = (if n < 10 then [digit_char n] else dec_nat (n div 10) @ [digit_char (n mod 10)])"

definition dec_int :: "int \<Rightarrow> string" where
  "dec_int i = (if i < 0 then CHR ''-'' # dec_nat (nat (- i)) else dec_nat (nat i))"

text \<open>\<^verbatim>\<open>repr(s)\<close> for a string: single quotes unless the string has a single quote and no
  double quote; the quote and the backslash escaped, tab, newline and carriage return by
  letter, every other non-printable character as \<^verbatim>\<open>\xhh\<close>.\<close>

definition printable :: "char \<Rightarrow> bool" where
  "printable c \<longleftrightarrow> (CHR 0x20 \<le> c \<and> c \<le> CHR 0x7E) \<or> (CHR 0xA1 \<le> c \<and> c \<noteq> CHR 0xAD)"

definition repr_char :: "char \<Rightarrow> char \<Rightarrow> string" where
  "repr_char q c =
     (if c = q \<or> c = backslash then [backslash, c]
      else if c = CHR 0x09 then [backslash, CHR ''t'']
      else if c = CHR 0x0A then [backslash, CHR ''n'']
      else if c = CHR 0x0D then [backslash, CHR ''r'']
      else if \<not> printable c then
        [backslash, CHR ''x'', digit_char (of_char c div 16), digit_char (of_char c mod 16)]
      else [c])"

definition repr_str :: "string \<Rightarrow> string" where
  "repr_str s =
     (let q = (if squote \<in> set s \<and> dquote \<notin> set s then dquote else squote)
      in q # concat (map (repr_char q) s) @ [q])"

fun py_repr :: "json \<Rightarrow> string" where
  "py_repr JNull = ''None''"
| "py_repr (JBool b) = (if b then ''True'' else ''False'')"
| "py_repr (JInt i) = dec_int i"
| "py_repr (JFloat r) = r"
| "py_repr (JStr s) = repr_str s"
| "py_repr (JArr xs) = ''['' @ join '', '' (map py_repr xs) @ '']''"
| "py_repr (JObj kv) =
     ''{'' @ join '', '' (map (\<lambda>e. repr_str (fst e) @ '': '' @ py_repr (snd e)) kv) @ ''}''"

text \<open>\<^verbatim>\<open>str(v)\<close>, which is what an f-string field \<^verbatim>\<open>{v}\<close> renders.\<close>

definition py_str :: "json \<Rightarrow> string" where
  "py_str v = (case v of JStr s \<Rightarrow> s | _ \<Rightarrow> py_repr v)"

section \<open>Regular expressions\<close>

text \<open>
  The ten patterns of \<^verbatim>\<open>parse_events\<close> are sequences of literal text, single-character
  classes under a greedy repetition, and group brackets. \<^verbatim>\<open>re.search\<close> tries every start
  position from the left; at a position it matches the items in order, a repetition
  taking as many characters as it can and giving them back one by one while the rest
  fails. A match is returned as the list of the texts its items consumed.
\<close>

datatype citem = Ch char | Rng char char | Digit | Space

datatype atom = In "citem list" | NotIn "citem list"

datatype re_item = Lit string | Rep atom nat "nat option" | GOpen nat | GClose nat

fun in_citem :: "citem \<Rightarrow> char \<Rightarrow> bool" where
  "in_citem (Ch x) c = (c = x)"
| "in_citem (Rng lo hi) c = (lo \<le> c \<and> c \<le> hi)"
| "in_citem Digit c = is_digit c"
| "in_citem Space c = is_space c"

fun atom_ok :: "atom \<Rightarrow> char \<Rightarrow> bool" where
  "atom_ok (In cs) c = list_ex (\<lambda>i. in_citem i c) cs"
| "atom_ok (NotIn cs) c = (\<not> list_ex (\<lambda>i. in_citem i c) cs)"

text \<open>How many characters a repetition can take at most: the run of matching characters,
  up to its upper bound.\<close>

fun run_len :: "atom \<Rightarrow> nat option \<Rightarrow> string \<Rightarrow> nat" where
  "run_len a hi [] = 0"
| "run_len a hi (c # s) =
     (if hi = Some 0 \<or> \<not> atom_ok a c then 0
      else Suc (run_len a (map_option (\<lambda>h. h - 1) hi) s))"

type_synonym mres = "(string list \<times> string) option"

definition add_chunk :: "string \<Rightarrow> mres \<Rightarrow> mres" where
  "add_chunk w r = map_option (\<lambda>(cs, rest). (w # cs, rest)) r"

text \<open>Backtracking: the continuation is tried after \<open>k\<close> characters, then after \<open>k - 1\<close>,
  down to the lower bound.\<close>

fun try_len :: "(string \<Rightarrow> mres) \<Rightarrow> nat \<Rightarrow> nat \<Rightarrow> string \<Rightarrow> mres" where
  "try_len cont lo 0 s = (if 0 < lo then None else add_chunk [] (cont s))"
| "try_len cont lo (Suc j) s =
     (if Suc j < lo then None
      else case cont (drop (Suc j) s) of
             Some r \<Rightarrow> add_chunk (take (Suc j) s) (Some r)
           | None \<Rightarrow> try_len cont lo j s)"

fun rmatch :: "re_item list \<Rightarrow> string \<Rightarrow> mres" where
  "rmatch [] s = Some ([], s)"
| "rmatch (Lit w # r) s =
     (if startswith s w then add_chunk w (rmatch r (drop (length w) s)) else None)"
| "rmatch (Rep a lo hi # r) s = try_len (\<lambda>t. rmatch r t) lo (run_len a hi s) s"
| "rmatch (GOpen k # r) s = add_chunk [] (rmatch r s)"
| "rmatch (GClose k # r) s = add_chunk [] (rmatch r s)"

text \<open>A match object: the pattern and the texts its items consumed.\<close>

type_synonym match = "re_item list \<times> string list"

fun re_search :: "re_item list \<Rightarrow> string \<Rightarrow> match option" where
  "re_search p [] = map_option (\<lambda>r. (p, fst r)) (rmatch p [])"
| "re_search p (c # s) =
     (case rmatch p (c # s) of
        Some r \<Rightarrow> Some (p, fst r)
      | None \<Rightarrow> re_search p s)"

text \<open>\<^verbatim>\<open>m.group(k)\<close>: the text consumed between the brackets of group \<open>k\<close>.\<close>

fun grp :: "nat \<Rightarrow> bool \<Rightarrow> re_item list \<Rightarrow> string list \<Rightarrow> string" where
  "grp k inside (GOpen j # r) (c # cs) = grp k (inside \<or> j = k) r cs"
| "grp k inside (GClose j # r) (c # cs) = grp k (inside \<and> j \<noteq> k) r cs"
| "grp k inside (i # r) (c # cs) = (if inside then c else []) @ grp k inside r cs"
| "grp k inside _ _ = []"

definition group :: "nat \<Rightarrow> match \<Rightarrow> string" where
  "group k m = grp k False (fst m) (snd m)"

section \<open>Event extraction\<close>

text \<open>The patterns of \<^verbatim>\<open>parse_events\<close>, in the order of the source.\<close>

definition NAME_RE :: "re_item list" where
  \<comment> \<open>\<^verbatim>\<open><b>([^<]+)</b>\<close>\<close>
  "NAME_RE = [Lit ''<b>'', GOpen 1, Rep (NotIn [Ch CHR ''<'']) 1 None, GClose 1, Lit ''</b>'']"

definition DIST_RE :: "re_item list" where
  \<comment> \<open>\<^verbatim>\<open>DIST:\s*(\d+)\s*mi\<close>\<close>
  "DIST_RE = [Lit ''DIST:'', Rep (In [Space]) 0 None, GOpen 1, Rep (In [Digit]) 1 None, GClose 1,
     Rep (In [Space]) 0 None, Lit ''mi'']"

definition DATE_RE :: "re_item list" where
  \<comment> \<open>\<^verbatim>\<open><i>([^<]+)</i>\<close>\<close>
  "DATE_RE = [Lit ''<i>'', GOpen 1, Rep (NotIn [Ch CHR ''<'']) 1 None, GClose 1, Lit ''</i>'']"

definition LOC_RE :: "re_item list" where
  \<comment> \<open>\<^verbatim>\<open></a>([^<]+)<br[^>]*>UNITED STATES\<close>\<close>
  "LOC_RE = [Lit ''</a>'', GOpen 1, Rep (NotIn [Ch CHR ''<'']) 1 None, GClose 1, Lit ''<br'',
     Rep (NotIn [Ch CHR ''>'']) 0 None, Lit ''>UNITED STATES'']"

definition LOC2_RE :: "re_item list" where
  \<comment> \<open>\<^verbatim>\<open></a>([A-Za-z\s,]+[A-Z]{2}\s*\d*)<br\<close>\<close>
  "LOC2_RE = [Lit ''</a>'', GOpen 1,
     Rep (In [Rng CHR ''A'' CHR ''Z'', Rng CHR ''a'' CHR ''z'', Space, Ch CHR '','']) 1 None,
     Rep (In [Rng CHR ''A'' CHR ''Z'']) 2 (Some 2), Rep (In [Space]) 0 None,
     Rep (In [Digit]) 0 None, GClose 1, Lit ''<br'']"

definition REP_RE :: "re_item list" where
  \<comment> \<open>\<^verbatim>\<open>Reps?:\s*([^<]+)\<close>\<close>
  "REP_RE = [Lit ''Rep'', Rep (In [Ch CHR ''s'']) 0 (Some 1), Lit '':'', Rep (In [Space]) 0 None,
     GOpen 1, Rep (NotIn [Ch CHR ''<'']) 1 None, GClose 1]"

definition ONCLICK_RE :: "re_item list" where
  \<comment> \<open>\<^verbatim>\<open>onclick=["\']viewEvent\((\d+)\)["\']\<close>\<close>
  "ONCLICK_RE = [Lit ''onclick='', Rep (In [Ch dquote, Ch squote]) 1 (Some 1), Lit ''viewEvent('',
     GOpen 1, Rep (In [Digit]) 1 None, GClose 1, Lit '')'',
     Rep (In [Ch dquote, Ch squote]) 1 (Some 1)]"

definition ONCLICK2_RE :: "re_item list" where
  \<comment> \<open>\<^verbatim>\<open>onclick=['\"]viewEvent\((\d+)\)['\"]\<close>\<close>
  "ONCLICK2_RE = [Lit ''onclick='', Rep (In [Ch squote, Ch dquote]) 1 (Some 1), Lit ''viewEvent('',
     GOpen 1, Rep (In [Digit]) 1 None, GClose 1, Lit '')'',
     Rep (In [Ch squote, Ch dquote]) 1 (Some 1)]"

definition VIEW_RE :: "re_item list" where
  \<comment> \<open>\<^verbatim>\<open>viewEvent\((\d+)\)\<close>\<close>
  "VIEW_RE = [Lit ''viewEvent('', GOpen 1, Rep (In [Digit]) 1 None, GClose 1, Lit '')'']"

definition HREF_RE :: "re_item list" where
  \<comment> \<open>\<^verbatim>\<open>href=["\']([^"\']*evr[^"\']*evid=(\d+)[^"\']*)["\']\<close>\<close>
  "HREF_RE = [Lit ''href='', Rep (In [Ch dquote, Ch squote]) 1 (Some 1), GOpen 1,
     Rep (NotIn [Ch dquote, Ch squote]) 0 None, Lit ''evr'',
     Rep (NotIn [Ch dquote, Ch squote]) 0 None, Lit ''evid='',
     GOpen 2, Rep (In [Digit]) 1 None, GClose 2,
     Rep (NotIn [Ch dquote, Ch squote]) 0 None, GClose 1,
     Rep (In [Ch dquote, Ch squote]) 1 (Some 1)]"

definition EVENT_URL :: string where
  "EVENT_URL = ''https://mms.kcbs.us/members/evr/reg_event_kcba.php?orgcode=KCBA&evid=''"

definition HOST :: string where
  "HOST = ''https://mms.kcbs.us''"

text \<open>The fields of one record, each as the source computes it from \<^verbatim>\<open>html_content\<close>,
  the \<^verbatim>\<open>name\<close> field and the event id.\<close>

definition event_name_of :: "json \<Rightarrow> string \<Rightarrow> json" where
  "event_name_of name html =
     (case re_search NAME_RE html of
        Some m \<Rightarrow> JStr (strip (group 1 m))
      | None \<Rightarrow> name)"

definition distance_of :: "string \<Rightarrow> string" where
  "distance_of html =
     (case re_search DIST_RE html of
        Some m \<Rightarrow> group 1 m @ '' mi''
      | None \<Rightarrow> [])"

definition dates_of :: "string \<Rightarrow> string" where
  "dates_of html =
     (case re_search DATE_RE html of
        Some m \<Rightarrow> strip (group 1 m)
      | None \<Rightarrow> [])"

definition location_of :: "string \<Rightarrow> string" where
  "location_of html =
     (let location_match =
            (case re_search LOC_RE html of
               None \<Rightarrow> re_search LOC2_RE html
             | Some m \<Rightarrow> Some m)
      in case location_match of
           Some m \<Rightarrow> strip (group 1 m)
         | None \<Rightarrow> [])"

definition rep_name_of :: "string \<Rightarrow> string" where
  "rep_name_of html =
     (case re_search REP_RE html of
        Some m \<Rightarrow> strip (group 1 m)
      | None \<Rightarrow> [])"

definition href_url :: "string \<Rightarrow> string" where
  "href_url html =
     (case re_search HREF_RE html of
        Some m \<Rightarrow>
          (let event_url = group 1 m
           in if \<not> startswith event_url ''http''
              then (if startswith event_url ''/'' then HOST @ event_url
                    else HOST @ ''/'' @ event_url)
              else event_url)
      | None \<Rightarrow> [])"

definition event_url_of :: "json \<Rightarrow> string \<Rightarrow> string" where
  "event_url_of event_id html =
     (if truthy event_id then EVENT_URL @ py_str event_id
      else
        (let m1 = re_search ONCLICK_RE html;
             m2 = (case m1 of None \<Rightarrow> re_search ONCLICK2_RE html | Some m \<Rightarrow> Some m);
             m3 = (case m2 of None \<Rightarrow> re_search VIEW_RE html | Some m \<Rightarrow> Some m)
         in case m3 of
              Some m \<Rightarrow> EVENT_URL @ group 1 m
            | None \<Rightarrow> href_url html))"

text \<open>\<^verbatim>\<open>event.get('id') or props.get('id') or props.get('evid') or props.get('event_id')\<close>\<close>

definition event_id_of :: "(string \<times> json) list \<Rightarrow> (string \<times> json) list \<Rightarrow> json" where
  "event_id_of event props =
     py_or (dict_get event ''id'' JNull)
       (py_or (dict_get props ''id'' JNull)
          (py_or (dict_get props ''evid'' JNull) (dict_get props ''event_id'' JNull)))"

definition format_line :: "json \<Rightarrow> string \<Rightarrow> string \<Rightarrow> string \<Rightarrow> string \<Rightarrow> string \<Rightarrow> string" where
  "format_line event_name distance dates location rep_name event_url =
     py_str event_name @ ''|'' @ distance @ ''|'' @ dates @ ''|'' @ location @ ''|'' @ rep_name
       @ ''|'' @ event_url"

text \<open>
  The body of the \<^verbatim>\<open>try\<close> block for one record. \<open>Inl\<close> is an exception, which the
  handler catches: \<^verbatim>\<open>props.get\<close> on a value that is not a dict is an AttributeError,
  \<^verbatim>\<open>re.search\<close> on a value that is not a string a TypeError. \<open>Inr None\<close> is a record that
  adds no line, \<open>Inr (Some l)\<close> one that appends \<open>l\<close>.
\<close>

definition parse_event :: "json \<Rightarrow> exn + string option" where
  "parse_event event =
     (case event of
        JObj ev \<Rightarrow>
          (case map_of ev ''properties'' of
             None \<Rightarrow> Inr None
           | Some props \<Rightarrow>
               (case props of
                  JObj p \<Rightarrow>
                    (let name = dict_get p ''name'' (JStr []);
                         html_content = dict_get p ''html_content'' (JStr []);
                         event_id = event_id_of ev p
                     in case html_content of
                          JStr html \<Rightarrow>
                            (let event_name = event_name_of name html
                             in if truthy event_name
                                then Inr (Some (format_line event_name (distance_of html)
                                       (dates_of html) (location_of html) (rep_name_of html)
                                       (event_url_of event_id html)))
                                else Inr None)
                        | _ \<Rightarrow> Inl TypeError)
                | _ \<Rightarrow> Inl AttributeError))
      | _ \<Rightarrow> Inr None)"

text \<open>The loop over the records: a record that raises is skipped, the loop goes on.\<close>

fun events_loop :: "json list \<Rightarrow> string list \<Rightarrow> string list" where
  "events_loop [] output_lines = output_lines"
| "events_loop (event # events) output_lines =
     events_loop events
       (case parse_event event of
          Inr (Some line) \<Rightarrow> output_lines @ [line]
        | Inr None \<Rightarrow> output_lines
        | Inl e \<Rightarrow> output_lines)"

text \<open>The record list the source selects from the decoded payload (the variable
  \<^verbatim>\<open>events\<close> before the loop).\<close>

fun first_list :: "(string \<times> json) list \<Rightarrow> json" where
  "first_list [] = JArr []"
| "first_list ((key, JArr xs) # kv) = JArr xs"
| "first_list ((key, v) # kv) = first_list kv"

definition select_events :: "json \<Rightarrow> json" where
  "select_events events_data =
     (case events_data of
        JObj d \<Rightarrow>
          (case map_of d ''features'' of
             Some v \<Rightarrow> v
           | None \<Rightarrow>
               (case map_of d ''events'' of
                  Some v \<Rightarrow> v
                | None \<Rightarrow>
                    (case map_of d ''data'' of
                       Some v \<Rightarrow> v
                     | None \<Rightarrow> first_list d)))
      | JArr xs \<Rightarrow> JArr xs
      | _ \<Rightarrow> JArr [])"

text \<open>
  \<^verbatim>\<open>parse_events\<close>: the early return on a false payload, the selection of the record
  list, and the rest of the function on the selected value (\<open>process_records\<close>). \<open>Inl\<close>
  is an exception that leaves the function: \<^verbatim>\<open>len(events)\<close>, in the message printed
  before the loop, stands outside the \<^verbatim>\<open>try\<close> block.
\<close>

definition process_records :: "json \<Rightarrow> exn + string list" where
  "process_records events =
     (case py_len events of
        Inl e \<Rightarrow> Inl e
      | Inr n \<Rightarrow>
          (case py_iter events of
             Inl e \<Rightarrow> Inl e
           | Inr records \<Rightarrow> Inr (events_loop records [])))"

definition parse_events :: "json \<Rightarrow> exn + string list" where
  "parse_events events_data =
     (if \<not> truthy events_data then Inr []
      else process_records (select_events events_data))"

section \<open>The query builder and the fetcher\<close>

text \<open>
  What lies outside the source file is a parameter of the model: the calendar date the
  clock shows when \<^verbatim>\<open>datetime.now()\<close> is called (the time of day is kept by the addition
  and dropped by the format), the answer of the network to a URL (\<open>None\<close> when anything in
  the \<^verbatim>\<open>try\<close> block raises before the text is decoded), \<^verbatim>\<open>json.loads\<close> (\<open>None\<close> when it
  raises), and the output file: its content before the run, whether \<^verbatim>\<open>open\<close> can open it
  for writing, and which characters its encoding can encode. The request headers are not
  modelled.
\<close>

record date =
  year :: nat
  month :: nat
  day :: nat

definition is_leap :: "nat \<Rightarrow> bool" where
  "is_leap y \<longleftrightarrow> y mod 4 = 0 \<and> (y mod 100 \<noteq> 0 \<or> y mod 400 = 0)"

definition days_in_month :: "nat \<Rightarrow> nat \<Rightarrow> nat" where
  "days_in_month y m =
     (if m = 2 then (if is_leap y then 29 else 28)
      else if m = 4 \<or> m = 6 \<or> m = 9 \<or> m = 11 then 30
      else 31)"

text \<open>The values a \<^verbatim>\<open>datetime\<close> can hold: years 1 to 9999 of the proleptic Gregorian
  calendar.\<close>

definition valid_date :: "date \<Rightarrow> bool" where
  "valid_date d \<longleftrightarrow> 1 \<le> year d \<and> year d \<le> 9999 \<and> 1 \<le> month d \<and> month d \<le> 12
     \<and> 1 \<le> day d \<and> day d \<le> days_in_month (year d) (month d)"

definition tomorrow :: "date \<Rightarrow> date" where
  "tomorrow d =
     (if day d < days_in_month (year d) (month d) then d\<lparr>day := day d + 1\<rparr>
      else if month d < 12 then d\<lparr>month := month d + 1, day := 1\<rparr>
      else \<lparr>year = year d + 1, month = 1, day = 1\<rparr>)"

definition MAXDATE :: date where
  "MAXDATE = \<lparr>year = 9999, month = 12, day = 31\<rparr>"

text \<open>\<^verbatim>\<open>d + timedelta(days=n)\<close>: the calendar advanced by \<open>n\<close> days; an OverflowError when
  that leaves the year 9999.\<close>

fun add_days :: "nat \<Rightarrow> date \<Rightarrow> exn + date" where
  "add_days 0 d = Inr d"
| "add_days (Suc n) d = (if d = MAXDATE then Inl OverflowError else add_days n (tomorrow d))"

text \<open>\<^verbatim>\<open>date.toordinal()\<close>: the number of the day, 1 for January 1 of year 1.\<close>

definition days_before_year :: "nat \<Rightarrow> int" where
  "days_before_year y =
     (let y1 = int y - 1 in y1 * 365 + y1 div 4 - y1 div 100 + y1 div 400)"

definition days_before_month :: "nat \<Rightarrow> nat \<Rightarrow> int" where
  "days_before_month y m = (\<Sum>k \<leftarrow> [1..<m]. int (days_in_month y k))"

definition toordinal :: "date \<Rightarrow> int" where
  "toordinal d = days_before_year (year d) + days_before_month (year d) (month d) + int (day d)"

text \<open>\<^verbatim>\<open>strftime("%m/%d/%Y")\<close>: month and day on two digits, the year on four. (For a
  year before 1000 the padding of \<^verbatim>\<open>%Y\<close> depends on the platform and the Python version;
  the model pads, as the documentation says, and no theorem below relies on it.)\<close>

definition zfill :: "nat \<Rightarrow> string \<Rightarrow> string" where
  "zfill w s = replicate (w - length s) CHR ''0'' @ s"

definition strftime_mdy :: "date \<Rightarrow> string" where
  "strftime_mdy d =
     zfill 2 (dec_nat (month d)) @ ''/'' @ zfill 2 (dec_nat (day d)) @ ''/''
       @ zfill 4 (dec_nat (year d))"

definition get_date_range :: "date \<Rightarrow> exn + string \<times> string" where
  "get_date_range today =
     (let begin_date = strftime_mdy today
      in case add_days 365 today of
           Inl e \<Rightarrow> Inl e
         | Inr d \<Rightarrow> Inr (begin_date, strftime_mdy d))"

text \<open>\<^verbatim>\<open>urllib.parse.urlencode\<close> of a dict of strings: each key and value through
  \<^verbatim>\<open>quote_plus\<close> (letters, digits and \<^verbatim>\<open>_.-~\<close> kept, a space as \<^verbatim>\<open>+\<close>, every other
  character as the \<^verbatim>\<open>%XX\<close> of its UTF-8 bytes), joined by \<^verbatim>\<open>=\<close> and \<^verbatim>\<open>&\<close>.\<close>

definition url_safe :: "char \<Rightarrow> bool" where
  "url_safe c \<longleftrightarrow> (CHR ''A'' \<le> c \<and> c \<le> CHR ''Z'') \<or> (CHR ''a'' \<le> c \<and> c \<le> CHR ''z'')
     \<or> is_digit c \<or> c \<in> set ''_.-~''"

definition pct :: "nat \<Rightarrow> string" where
  "pct b = [CHR ''%'', ''0123456789ABCDEF'' ! (b div 16), ''0123456789ABCDEF'' ! (b mod 16)]"

definition quote_plus_char :: "char \<Rightarrow> string" where
  "quote_plus_char c =
     (if url_safe c then [c]
      else if c = CHR '' '' then ''+''
      else if (of_char c :: nat) < 128 then pct (of_char c)
      else pct (192 + of_char c div 64) @ pct (128 + of_char c mod 64))"

definition quote_plus :: "string \<Rightarrow> string" where
  "quote_plus s = concat (map quote_plus_char s)"

definition urlencode :: "(string \<times> string) list \<Rightarrow> string" where
  "urlencode params = join ''&'' (map (\<lambda>e. quote_plus (fst e) @ ''='' @ quote_plus (snd e)) params)"

definition KCBS_SEARCH_URL :: string where
  "KCBS_SEARCH_URL = ''https://mms.kcbs.us/members/evr_search_ol_json.php''"

definition RADIUS :: string where
  "RADIUS = ''175''"

definition search_params :: "string \<Rightarrow> string \<Rightarrow> string \<Rightarrow> string \<Rightarrow> (string \<times> string) list" where
  "search_params zipcode radius begin_date end_date =
     [(''evr_map_type'', ''0''), (''org_id'', ''KCBA''), (''evr_begin'', begin_date),
      (''evr_end'', end_date), (''evr_address'', zipcode), (''evr_radius'', radius),
      (''evr_type'', []), (''evr_openings'', []), (''evr_region'', []),
      (''evr_region_type'', []), (''evr_judge'', []), (''evr_keyword'', []),
      (''evr_rep_name'', [])]"

text \<open>\<^verbatim>\<open>s.find(c)\<close> and \<^verbatim>\<open>s.rfind(c)\<close>: the first and the last index of \<open>c\<close>, or -1.\<close>

fun py_find :: "string \<Rightarrow> char \<Rightarrow> int" where
  "py_find [] c = - 1"
| "py_find (x # s) c =
     (if x = c then 0 else (let r = py_find s c in if r = - 1 then - 1 else r + 1))"

definition py_rfind :: "string \<Rightarrow> char \<Rightarrow> int" where
  "py_rfind s c = (let r = py_find (rev s) c in if r = - 1 then - 1 else int (length s) - 1 - r)"

text \<open>\<^verbatim>\<open>s[i:j]\<close> for \<open>0 \<le> i\<close> and \<open>0 \<le> j\<close>.\<close>

definition slice :: "string \<Rightarrow> int \<Rightarrow> int \<Rightarrow> string" where
  "slice s i j = take (nat j - nat i) (drop (nat i) s)"

text \<open>The JSONP step of \<^verbatim>\<open>search_events_by_radius\<close> (the \<^verbatim>\<open>if data.startswith\<close> block).\<close>

definition unwrap :: "string \<Rightarrow> string" where
  "unwrap data =
     (if startswith data ''banner_callback_'' then
        (let json_start = py_find data CHR ''{'';
             json_end = py_rfind data CHR ''}'' + 1
         in if json_start \<noteq> - 1 \<and> json_end > json_start then slice data json_start json_end
            else data)
      else data)"

text \<open>What \<^verbatim>\<open>search_events_by_radius\<close> does with the decoded response text: the value
  parsed, or None (here \<open>JNull\<close>) when the parser raises.\<close>

definition handle_response :: "(string \<Rightarrow> json option) \<Rightarrow> string \<Rightarrow> json" where
  "handle_response loads data =
     (case loads (unwrap data) of
        Some events_data \<Rightarrow> events_data
      | None \<Rightarrow> JNull)"

record world =
  env_zipcode :: "string option"
  clock :: date
  http_get :: "string \<Rightarrow> string option"
  json_loads :: "string \<Rightarrow> json option"
  output_file :: "string option"
  file_opens :: bool
  file_encodes :: "char \<Rightarrow> bool"

definition request_url :: "string \<Rightarrow> string \<Rightarrow> string \<Rightarrow> string \<Rightarrow> string" where
  "request_url zipcode radius begin_date end_date =
     KCBS_SEARCH_URL @ ''?'' @ urlencode (search_params zipcode radius begin_date end_date)"

text \<open>\<^verbatim>\<open>search_events_by_radius\<close>: \<^verbatim>\<open>get_date_range\<close> is called before the \<^verbatim>\<open>try\<close> block,
  so its exception leaves the function; a failure of the request gives None.\<close>

definition search_events_by_radius :: "world \<Rightarrow> string \<Rightarrow> string \<Rightarrow> exn + json" where
  "search_events_by_radius w zipcode radius =
     (case get_date_range (clock w) of
        Inl e \<Rightarrow> Inl e
      | Inr (begin_date, end_date) \<Rightarrow>
          (case http_get w (request_url zipcode radius begin_date end_date) of
             None \<Rightarrow> Inr JNull
           | Some data \<Rightarrow> Inr (handle_response (json_loads w) data)))"

section \<open>The run\<close>

text \<open>
  A run ends with an exit code and leaves the output file (\<^verbatim>\<open>FinalCSV.txt\<close>) with some
  content, \<open>None\<close> when there is no such file. An exception that nothing catches ends the
  process with exit code 1, the file as it was.
\<close>

record outcome =
  exit_code :: nat
  file_after :: "string option"

definition uncaught :: "world \<Rightarrow> outcome" where
  "uncaught w = \<lparr>exit_code = 1, file_after = output_file w\<rparr>"

text \<open>
  The end of \<^verbatim>\<open>main\<close>: the file is opened for writing and the text written, the joined
  lines or the empty string. Nothing catches an exception here. When \<^verbatim>\<open>open\<close> raises
  (OSError) the file stays as it was. Once it is open it is truncated; when
  \<^verbatim>\<open>f.write\<close> then meets a character the encoding of the file cannot encode
  (UnicodeEncodeError) nothing is written and the file stays empty. A fault of the device
  while the bytes are stored (a full disk) is outside the model, as the console is.
\<close>

definition write_lines :: "world \<Rightarrow> string list \<Rightarrow> outcome" where
  "write_lines w output_lines =
     (let text = (if output_lines \<noteq> [] then join [CHR 0x0A] output_lines else [])
      in if \<not> file_opens w then uncaught w
         else if \<not> list_all (file_encodes w) text then \<lparr>exit_code = 1, file_after = Some []\<rparr>
         else \<lparr>exit_code = (if output_lines \<noteq> [] then 0 else 1), file_after = Some text\<rparr>)"

text \<open>\<^verbatim>\<open>sys.exit(main())\<close>, with \<^verbatim>\<open>ZIPCODE\<close> the value the configuration check let through.\<close>

definition main :: "world \<Rightarrow> string \<Rightarrow> outcome" where
  "main w ZIPCODE =
     (case search_events_by_radius w ZIPCODE RADIUS of
        Inl e \<Rightarrow> uncaught w
      | Inr events_data \<Rightarrow>
          (case parse_events events_data of
             Inl e \<Rightarrow> uncaught w
           | Inr output_lines \<Rightarrow> write_lines w output_lines))"

text \<open>The script: the configuration check at import (\<^verbatim>\<open>sys.exit(1)\<close> when \<^verbatim>\<open>ZIPCODE\<close> is
  unset or empty), then \<^verbatim>\<open>main\<close>.\<close>

definition script :: "world \<Rightarrow> outcome" where
  "script w =
     (case env_zipcode w of
        None \<Rightarrow> \<lparr>exit_code = 1, file_after = output_file w\<rparr>
      | Some z \<Rightarrow> (if z = [] then \<lparr>exit_code = 1, file_after = output_file w\<rparr> else main w z))"

section \<open>The specification's own descriptions\<close>

text \<open>
  The record-list discovery as the specification words it: the value under
  \<^verbatim>\<open>features\<close>, else under \<^verbatim>\<open>events\<close>, else under \<^verbatim>\<open>data\<close>, else the value of the first key
  whose value is a sequence; a root that is a sequence itself; otherwise nothing.
\<close>

fun is_sequence :: "json \<Rightarrow> bool" where
  "is_sequence (JArr xs) = True"
| "is_sequence _ = False"

definition record_list_spec :: "json \<Rightarrow> json" where
  "record_list_spec root =
     (case root of
        JObj d \<Rightarrow>
          (if ''features'' \<in> fst ` set d then the (map_of d ''features'')
           else if ''events'' \<in> fst ` set d then the (map_of d ''events'')
           else if ''data'' \<in> fst ` set d then the (map_of d ''data'')
           else (case find (\<lambda>e. is_sequence (snd e)) d of
                   Some e \<Rightarrow> snd e
                 | None \<Rightarrow> JArr []))
      | JArr xs \<Rightarrow> JArr xs
      | _ \<Rightarrow> JArr [])"

text \<open>
  What a pattern matches, said without the search: each item consumes a text of its own
  shape (a literal itself; a repetition between its bounds, of characters of its class;
  a bracket nothing), and the pattern occurs in \<open>s\<close> after the prefix \<open>pre\<close> when the
  texts of its items, one after the other, stand there.
\<close>

fun item_ok :: "re_item \<Rightarrow> string \<Rightarrow> bool" where
  "item_ok (Lit w) c = (c = w)"
| "item_ok (Rep a lo hi) c =
     (lo \<le> length c \<and> (case hi of None \<Rightarrow> True | Some h \<Rightarrow> length c \<le> h)
      \<and> list_all (atom_ok a) c)"
| "item_ok (GOpen k) c = (c = [])"
| "item_ok (GClose k) c = (c = [])"

definition parses :: "re_item list \<Rightarrow> string list \<Rightarrow> bool" where
  "parses p cs = list_all2 item_ok p cs"

definition occurs :: "re_item list \<Rightarrow> string \<Rightarrow> string \<Rightarrow> string list \<Rightarrow> string \<Rightarrow> bool" where
  "occurs p s pre cs post \<longleftrightarrow> s = pre @ concat cs @ post \<and> parses p cs"

text \<open>
  The places the patterns look for, said on the text itself. Each predicate reads: the
  text is \<open>pre\<close>, then the place with the captured text \<open>t\<close> (or the digits \<open>d\<close>), then
  \<open>post\<close>.
\<close>

definition span_at :: "string \<Rightarrow> string \<Rightarrow> string \<Rightarrow> string \<Rightarrow> string \<Rightarrow> string \<Rightarrow> bool" where
  "span_at opn cls html pre t post \<longleftrightarrow>
     html = pre @ opn @ t @ cls @ post \<and> t \<noteq> [] \<and> CHR ''<'' \<notin> set t"

definition loc_at :: "string \<Rightarrow> string \<Rightarrow> string \<Rightarrow> string \<Rightarrow> bool" where
  "loc_at html pre t post \<longleftrightarrow>
     (\<exists>g. html = pre @ ''</a>'' @ t @ ''<br'' @ g @ ''>UNITED STATES'' @ post
        \<and> t \<noteq> [] \<and> CHR ''<'' \<notin> set t \<and> CHR ''>'' \<notin> set g)"

definition is_upper :: "char \<Rightarrow> bool" where
  "is_upper c \<longleftrightarrow> CHR ''A'' \<le> c \<and> c \<le> CHR ''Z''"

definition is_lower :: "char \<Rightarrow> bool" where
  "is_lower c \<longleftrightarrow> CHR ''a'' \<le> c \<and> c \<le> CHR ''z''"

definition city_state_zip :: "string \<Rightarrow> bool" where
  "city_state_zip t \<longleftrightarrow>
     (\<exists>a b c d. t = a @ b @ c @ d
        \<and> a \<noteq> [] \<and> list_all (\<lambda>x. is_upper x \<or> is_lower x \<or> is_space x \<or> x = CHR '','') a
        \<and> length b = 2 \<and> list_all is_upper b
        \<and> list_all is_space c \<and> list_all is_digit d)"

definition loc2_at :: "string \<Rightarrow> string \<Rightarrow> string \<Rightarrow> string \<Rightarrow> bool" where
  "loc2_at html pre t post \<longleftrightarrow> html = pre @ ''</a>'' @ t @ ''<br'' @ post \<and> city_state_zip t"

definition is_quote :: "char \<Rightarrow> bool" where
  "is_quote q \<longleftrightarrow> q = dquote \<or> q = squote"

definition digits :: "string \<Rightarrow> bool" where
  "digits d \<longleftrightarrow> d \<noteq> [] \<and> list_all is_digit d"

definition onclick_at :: "string \<Rightarrow> string \<Rightarrow> string \<Rightarrow> string \<Rightarrow> bool" where
  "onclick_at html pre d post \<longleftrightarrow>
     (\<exists>q1 q2. html = pre @ ''onclick='' @ [q1] @ ''viewEvent('' @ d @ '')'' @ [q2] @ post
        \<and> is_quote q1 \<and> is_quote q2 \<and> digits d)"

definition view_at :: "string \<Rightarrow> string \<Rightarrow> string \<Rightarrow> string \<Rightarrow> bool" where
  "view_at html pre d post \<longleftrightarrow> html = pre @ ''viewEvent('' @ d @ '')'' @ post \<and> digits d"

definition href_at :: "string \<Rightarrow> string \<Rightarrow> string \<Rightarrow> string \<Rightarrow> bool" where
  "href_at html pre t post \<longleftrightarrow>
     (\<exists>q1 q2 a b d c. html = pre @ ''href='' @ [q1] @ t @ [q2] @ post
        \<and> t = a @ ''evr'' @ b @ ''evid='' @ d @ c
        \<and> is_quote q1 \<and> is_quote q2 \<and> digits d
        \<and> list_all (\<lambda>x. \<not> is_quote x) a \<and> list_all (\<lambda>x. \<not> is_quote x) b
        \<and> list_all (\<lambda>x. \<not> is_quote x) c)"

text \<open>
  The event identifier of a record is looked for in four places, in this order; a
  hyperlink target is made absolute against the host.
\<close>

definition id_candidates :: "(string \<times> json) list \<Rightarrow> (string \<times> json) list \<Rightarrow> json list" where
  "id_candidates ev p =
     [dict_get ev ''id'' JNull, dict_get p ''id'' JNull, dict_get p ''evid'' JNull,
      dict_get p ''event_id'' JNull]"

definition absolute_url :: "string \<Rightarrow> string" where
  "absolute_url t =
     (if startswith t ''http'' then t
      else if startswith t ''/'' then HOST @ t
      else HOST @ ''/'' @ t)"

text \<open>The text \<^verbatim>\<open>MM/DD/YYYY\<close> of a date: month and day on two digits, the year on four.\<close>

definition two_digits :: "nat \<Rightarrow> string" where
  "two_digits n = [digit_char (n div 10), digit_char (n mod 10)]"

definition four_digits :: "nat \<Rightarrow> string" where
  "four_digits n =
     [digit_char (n div 1000), digit_char (n div 100 mod 10), digit_char (n div 10 mod 10),
      digit_char (n mod 10)]"

definition mdy_text :: "date \<Rightarrow> string" where
  "mdy_text d = two_digits (month d) @ ''/'' @ two_digits (day d) @ ''/'' @ four_digits (year d)"

section \<open>Evaluation\<close>

declare dec_nat.simps [simp del]

text \<open>The defining equations a concrete input is evaluated with.\<close>

lemmas re_defs = NAME_RE_def DIST_RE_def DATE_RE_def LOC_RE_def LOC2_RE_def REP_RE_def
  ONCLICK_RE_def ONCLICK2_RE_def VIEW_RE_def HREF_RE_def

lemmas field_defs = event_name_of_def distance_of_def dates_of_def location_of_def
  rep_name_of_def event_url_of_def href_url_def event_id_of_def format_line_def

lemmas value_defs = group_def add_chunk_def strip_def is_space_def is_digit_def py_or_def
  dict_get_def py_str_def dec_int_def dec_nat.simps digit_char_def EVENT_URL_def HOST_def
  squote_def dquote_def

lemmas events_defs = parse_events_def process_records_def select_events_def parse_event_def

lemma add_days_numeral:
  "add_days (numeral k) d =
     (if d = MAXDATE then Inl OverflowError else add_days (pred_numeral k) (tomorrow d))"
  by (simp add: numeral_eq_Suc)

lemmas date_defs = get_date_range_def add_days_numeral tomorrow_def days_in_month_def
  is_leap_def MAXDATE_def strftime_mdy_def zfill_def dec_nat.simps digit_char_def

section \<open>The record list\<close>

lemma first_list_find:
  "first_list d = (case find (\<lambda>e. is_sequence (snd e)) d of Some e \<Rightarrow> snd e | None \<Rightarrow> JArr [])"
  by (induction d rule: first_list.induct) auto

lemma map_of_key_iff: "k \<in> fst ` set d \<longleftrightarrow> map_of d k \<noteq> None"
  by (simp add: map_of_eq_None_iff)

lemma select_events_spec: "select_events root = record_list_spec root"
  by (cases root)
    (auto simp: select_events_def record_list_spec_def first_list_find map_of_key_iff
      split: option.splits)

lemma falsy_record_list: "\<not> truthy root \<Longrightarrow> record_list_spec root = JArr []"
  by (cases root) (auto simp: record_list_spec_def)

lemma process_empty: "process_records (JArr []) = Inr []"
  by (simp add: process_records_def)

section \<open>The JSONP step\<close>

lemma py_find_takeWhile:
  "py_find s c = (if c \<in> set s then int (length (takeWhile (\<lambda>x. x \<noteq> c) s)) else - 1)"
  by (induction s) (auto simp: Let_def)

lemma takeWhile_upto: "c \<notin> set u \<Longrightarrow> takeWhile (\<lambda>x. x \<noteq> c) (u @ c # v) = u"
  by (induction u) auto

lemma py_rfind_bound:
  assumes "c \<notin> set (dropWhile (\<lambda>x. x \<noteq> b) s)"
  shows "py_rfind s c + 1 \<le> int (length (takeWhile (\<lambda>x. x \<noteq> b) s))"
proof -
  define u where "u = takeWhile (\<lambda>x. x \<noteq> b) s"
  define v where "v = dropWhile (\<lambda>x. x \<noteq> b) s"
  have s: "s = u @ v" by (simp add: u_def v_def)
  have cv: "c \<notin> set v" using assms by (simp add: v_def)
  show ?thesis
  proof (cases "c \<in> set s")
    case False
    then show ?thesis by (simp add: py_rfind_def py_find_takeWhile)
  next
    case True
    have "takeWhile (\<lambda>x. x \<noteq> c) (rev v @ rev u) = rev v @ takeWhile (\<lambda>x. x \<noteq> c) (rev u)"
      using cv by (intro takeWhile_append2) auto
    then have l: "length (takeWhile (\<lambda>x. x \<noteq> c) (rev s))
        = length v + length (takeWhile (\<lambda>x. x \<noteq> c) (rev u))"
      by (simp add: s)
    have n: "length s = length u + length v" by (simp add: s)
    have "py_rfind s c + 1 = int (length u) - int (length (takeWhile (\<lambda>x. x \<noteq> c) (rev u)))"
      using True by (simp add: py_rfind_def py_find_takeWhile Let_def l n)
    then show ?thesis by (simp add: u_def)
  qed
qed

lemma unwrap_noop:
  assumes "CHR ''}'' \<notin> set (dropWhile (\<lambda>x. x \<noteq> CHR ''{'') data)"
  shows "unwrap data = data"
  using py_rfind_bound [OF assms]
  by (simp add: unwrap_def Let_def py_find_takeWhile)

text \<open>Where the step applies, it keeps the text from the first \<^verbatim>\<open>{\<close> to the last \<^verbatim>\<open>}\<close>.\<close>

lemma unwrap_extracts:
  assumes "startswith (pre @ CHR ''{'' # mid @ CHR ''}'' # post) ''banner_callback_''"
    and "CHR ''{'' \<notin> set pre" and "CHR ''}'' \<notin> set post"
  shows "unwrap (pre @ CHR ''{'' # mid @ CHR ''}'' # post) = CHR ''{'' # mid @ [CHR ''}'']"
proof -
  let ?s = "pre @ CHR ''{'' # mid @ CHR ''}'' # post"
  have f: "py_find ?s CHR ''{'' = int (length pre)"
    using assms(2) by (simp add: py_find_takeWhile takeWhile_upto)
  have "takeWhile (\<lambda>x. x \<noteq> CHR ''}'') (rev post @ CHR ''}'' # rev mid @ CHR ''{'' # rev pre)
      = rev post"
    using assms(3) by (simp add: takeWhile_upto)
  then have r: "py_rfind ?s CHR ''}'' = int (length pre) + 1 + int (length mid)"
    by (simp add: py_rfind_def py_find_takeWhile Let_def)
  show ?thesis
    using assms(1) by (simp add: unwrap_def Let_def f r slice_def nat_add_distrib)
qed

section \<open>The search finds the leftmost occurrence\<close>

lemma startswith_iff: "startswith s w \<longleftrightarrow> (\<exists>t. s = w @ t)"
  by (induction s w rule: startswith.induct) auto

lemma startswith_append [simp]: "startswith (w @ t) w"
  by (simp add: startswith_iff)

lemma run_len_le: "run_len a hi s \<le> length s"
  by (induction a hi s rule: run_len.induct) auto

lemma run_len_hi: "hi = Some h \<Longrightarrow> run_len a hi s \<le> h"
  by (induction a hi s arbitrary: h rule: run_len.induct) (auto split: if_splits)

lemma run_len_ok: "k \<le> run_len a hi s \<Longrightarrow> list_all (atom_ok a) (take k s)"
proof (induction a hi s arbitrary: k rule: run_len.induct)
  case (1 a hi)
  then show ?case by simp
next
  case (2 a hi c s)
  then show ?case by (cases k) (auto split: if_splits)
qed

lemma run_len_max:
  "k \<le> length s \<Longrightarrow> list_all (atom_ok a) (take k s) \<Longrightarrow> (case hi of None \<Rightarrow> True | Some h \<Rightarrow> k \<le> h)
     \<Longrightarrow> k \<le> run_len a hi s"
proof (induction a hi s arbitrary: k rule: run_len.induct)
  case (1 a hi)
  then show ?case by simp
next
  case (2 a hi c s)
  show ?case
  proof (cases k)
    case 0
    then show ?thesis by simp
  next
    case (Suc j)
    with 2 show ?thesis by (cases hi) (auto split: option.splits)
  qed
qed

lemma try_len_sound:
  "try_len cont lo K s = Some (cs, rest) \<Longrightarrow>
     \<exists>k cs'. k \<le> K \<and> lo \<le> k \<and> cs = take k s # cs' \<and> cont (drop k s) = Some (cs', rest)"
proof (induction K)
  case 0
  then show ?case by (auto simp: add_chunk_def split: if_splits)
next
  case (Suc K)
  show ?case
  proof (cases "cont (drop (Suc K) s)")
    case None
    with Suc.prems have "try_len cont lo K s = Some (cs, rest)" by (auto split: if_splits)
    from Suc.IH [OF this] obtain k cs' where
      "k \<le> K" "lo \<le> k" "cs = take k s # cs'" "cont (drop k s) = Some (cs', rest)" by blast
    then have "k \<le> Suc K \<and> lo \<le> k \<and> cs = take k s # cs' \<and> cont (drop k s) = Some (cs', rest)"
      by simp
    then show ?thesis by blast
  next
    case (Some r)
    with Suc.prems show ?thesis
      by (cases r) (auto simp: add_chunk_def split: if_splits intro!: exI [of _ "Suc K"])
  qed
qed

lemma try_len_complete:
  "lo \<le> k \<Longrightarrow> k \<le> K \<Longrightarrow> cont (drop k s) \<noteq> None \<Longrightarrow> try_len cont lo K s \<noteq> None"
proof (induction K)
  case 0
  then show ?case by (auto simp: add_chunk_def)
next
  case (Suc K)
  show ?case
  proof (cases "k = Suc K")
    case True
    with Suc.prems show ?thesis by (auto simp: add_chunk_def)
  next
    case False
    with Suc.prems have "k \<le> K" by simp
    with Suc have "try_len cont lo K s \<noteq> None" by simp
    moreover have "\<not> Suc K < lo" using Suc.prems by simp
    ultimately show ?thesis by (auto simp: add_chunk_def split: option.splits)
  qed
qed

lemma rmatch_sound:
  "rmatch p s = Some (cs, rest) \<Longrightarrow> parses p cs \<and> s = concat cs @ rest"
proof (induction p s arbitrary: cs rest rule: rmatch.induct)
  case (1 s)
  then show ?case by (simp add: parses_def)
next
  case (2 w r s)
  then show ?case
    by (auto simp: parses_def add_chunk_def startswith_iff split: if_splits)
next
  case (3 a lo hi r s)
  from 3(2) obtain k cs' where k: "k \<le> run_len a hi s" "lo \<le> k" "cs = take k s # cs'"
      "rmatch r (drop k s) = Some (cs', rest)"
    using try_len_sound [of "\<lambda>t. rmatch r t" lo "run_len a hi s" s cs rest] by auto
  from 3(1) [OF k(4)] have ih: "parses r cs'" "drop k s = concat cs' @ rest" by auto
  have len: "length (take k s) = k" using k(1) run_len_le [of a hi s] by simp
  have ok: "list_all (atom_ok a) (take k s)" using run_len_ok [OF k(1)] .
  have hi: "case hi of None \<Rightarrow> True | Some h \<Rightarrow> k \<le> h"
    using k(1) run_len_hi [of hi _ a s] by (auto split: option.splits)
  have "s = take k s @ drop k s" by simp
  then have "s = concat cs @ rest" using ih(2) k(3) by simp
  moreover have "item_ok (Rep a lo hi) (take k s)"
    using k(2) len ok hi by (simp split: option.splits)
  ultimately show ?case using ih(1) k(3) by (simp add: parses_def)
next
  case (4 k r s)
  then show ?case by (auto simp: parses_def add_chunk_def)
next
  case (5 k r s)
  then show ?case by (auto simp: parses_def add_chunk_def)
qed

lemma rmatch_complete:
  "parses p cs \<Longrightarrow> rmatch p (concat cs @ rest) \<noteq> None"
proof (induction p arbitrary: cs)
  case Nil
  then show ?case by simp
next
  case (Cons i r)
  from Cons.prems obtain c cs' where cs: "cs = c # cs'" "item_ok i c" "parses r cs'"
    by (auto simp: parses_def list_all2_Cons1)
  from Cons.IH [OF cs(3)] have ih: "rmatch r (concat cs' @ rest) \<noteq> None" .
  show ?case
  proof (cases i)
    case (Lit w)
    with cs ih show ?thesis by (auto simp: add_chunk_def)
  next
    case (Rep a lo hi)
    let ?s = "c @ concat cs' @ rest"
    have "length c \<le> run_len a hi ?s"
      using cs(2) Rep by (intro run_len_max) (auto split: option.splits)
    moreover have "lo \<le> length c" using cs(2) Rep by simp
    moreover have "rmatch r (drop (length c) ?s) \<noteq> None" using ih by simp
    ultimately have "try_len (\<lambda>t. rmatch r t) lo (run_len a hi ?s) ?s \<noteq> None"
      using try_len_complete [of lo "length c" "run_len a hi ?s" "\<lambda>t. rmatch r t" ?s] by simp
    then show ?thesis using Rep cs(1) by simp
  next
    case (GOpen k)
    with cs ih show ?thesis by (auto simp: add_chunk_def)
  next
    case (GClose k)
    with cs ih show ?thesis by (auto simp: add_chunk_def)
  qed
qed

lemma re_search_sound:
  "re_search p s = Some m \<Longrightarrow>
     \<exists>pre cs post. m = (p, cs) \<and> occurs p s pre cs post
       \<and> (\<forall>pre' cs' post'. occurs p s pre' cs' post' \<longrightarrow> length pre \<le> length pre')"
proof (induction s)
  case Nil
  then obtain cs rest where r: "rmatch p [] = Some (cs, rest)" "m = (p, cs)" by auto
  from rmatch_sound [OF r(1)] have "occurs p [] [] cs rest" by (simp add: occurs_def)
  moreover have "\<forall>pre' cs' post'. occurs p [] pre' cs' post' \<longrightarrow> length ([] :: string) \<le> length pre'"
    by simp
  ultimately show ?case using r(2) by blast
next
  case (Cons c s)
  show ?case
  proof (cases "rmatch p (c # s)")
    case (Some r)
    obtain cs rest where r: "r = (cs, rest)" by (cases r)
    from rmatch_sound [of p "c # s" cs rest] Some r
    have "occurs p (c # s) [] cs rest" by (simp add: occurs_def)
    moreover have "m = (p, cs)" using Cons.prems Some r by simp
    moreover have "\<forall>pre' cs' post'. occurs p (c # s) pre' cs' post' \<longrightarrow> length ([] :: string) \<le> length pre'"
      by simp
    ultimately show ?thesis by blast
  next
    case None
    with Cons.prems have "re_search p s = Some m" by simp
    from Cons.IH [OF this] obtain pre cs post where
      ih: "m = (p, cs)" "occurs p s pre cs post"
        "\<forall>pre' cs' post'. occurs p s pre' cs' post' \<longrightarrow> length pre \<le> length pre'"
      by blast
    have "length (c # pre) \<le> length pre'" if o: "occurs p (c # s) pre' cs' post'" for pre' cs' post'
    proof (cases pre')
      case Nil
      with o have "c # s = concat cs' @ post'" "parses p cs'" by (simp_all add: occurs_def)
      with rmatch_complete [of p cs' post'] None show ?thesis by simp
    next
      case (Cons x pre'')
      with o have "occurs p s pre'' cs' post'" by (simp add: occurs_def)
      with ih(3) Cons show ?thesis by auto
    qed
    moreover have "occurs p (c # s) (c # pre) cs post" using ih(2) by (simp add: occurs_def)
    ultimately show ?thesis using ih(1) by blast
  qed
qed

lemma re_search_complete:
  "occurs p s pre cs post \<Longrightarrow> re_search p s \<noteq> None"
proof (induction pre arbitrary: s)
  case Nil
  then have s: "s = concat cs @ post" "parses p cs" by (simp_all add: occurs_def)
  from rmatch_complete [OF s(2), of post] s(1) have "rmatch p s \<noteq> None" by simp
  then show ?case by (cases s) auto
next
  case (Cons c pre)
  then obtain t where t: "s = c # t" "occurs p t pre cs post" by (auto simp: occurs_def)
  from Cons.IH [OF t(2)] t(1) show ?case by (auto split: option.splits)
qed

lemma re_search_None_iff:
  "re_search p s = None \<longleftrightarrow> (\<forall>pre cs post. \<not> occurs p s pre cs post)"
  using re_search_complete re_search_sound by (metis not_None_eq)

lemma same_prefix: "pre @ x = pre' @ y \<Longrightarrow> length pre = length pre' \<Longrightarrow> pre = pre' \<and> x = y"
  by simp

lemma re_search_leftmost:
  assumes occ: "occurs p s pre cs post"
    and left: "\<forall>pre' cs' post'. occurs p s pre' cs' post' \<longrightarrow> length pre \<le> length pre'"
  shows "\<exists>cs' post'. re_search p s = Some (p, cs') \<and> occurs p s pre cs' post'"
proof -
  from re_search_complete [OF occ] obtain m where m: "re_search p s = Some m" by auto
  from re_search_sound [OF m] obtain pre0 cs0 post0 where
    s: "m = (p, cs0)" "occurs p s pre0 cs0 post0"
      "\<forall>pre' cs' post'. occurs p s pre' cs' post' \<longrightarrow> length pre0 \<le> length pre'"
    by blast
  have "length pre0 = length pre" using s(2,3) occ left by (meson le_antisym)
  moreover have "pre0 @ concat cs0 @ post0 = pre @ concat cs @ post"
    using s(2) occ by (simp add: occurs_def)
  ultimately have "pre0 = pre" by simp
  then show ?thesis using m s(1,2) by auto
qed

section \<open>What each pattern finds\<close>

lemma search_first_capture:
  assumes to_X: "\<And>pre cs post. occurs p s pre cs post \<Longrightarrow> X pre (grp 1 False p cs) post"
    and from_X: "\<And>pre t post. X pre t post \<Longrightarrow> \<exists>cs. occurs p s pre cs post"
    and uniq: "\<And>pre t post t' post'. X pre t post \<Longrightarrow> X pre t' post' \<Longrightarrow> t' = t"
    and at: "X pre t post"
    and left: "\<forall>pre' t' post'. X pre' t' post' \<longrightarrow> length pre \<le> length pre'"
  shows "\<exists>m. re_search p s = Some m \<and> group 1 m = t"
proof -
  from from_X [OF at] obtain cs where cs: "occurs p s pre cs post" by blast
  have l: "\<forall>pre' cs' post'. occurs p s pre' cs' post' \<longrightarrow> length pre \<le> length pre'"
  proof (intro allI impI)
    fix pre' cs' post'
    assume "occurs p s pre' cs' post'"
    from to_X [OF this] left show "length pre \<le> length pre'" by blast
  qed
  from re_search_leftmost [OF cs l] obtain cs' post' where
    m: "re_search p s = Some (p, cs')" "occurs p s pre cs' post'" by blast
  from uniq [OF at to_X [OF m(2)]] have "grp 1 False p cs' = t" .
  with m(1) show ?thesis by (simp add: group_def)
qed

lemma search_none_iff:
  assumes to_X: "\<And>pre cs post. occurs p s pre cs post \<Longrightarrow> X pre (grp 1 False p cs) post"
    and from_X: "\<And>pre t post. X pre t post \<Longrightarrow> \<exists>cs. occurs p s pre cs post"
  shows "re_search p s = None \<longleftrightarrow> (\<forall>pre t post. \<not> X pre t post)"
proof
  assume "re_search p s = None"
  then have "\<forall>pre cs post. \<not> occurs p s pre cs post" by (simp add: re_search_None_iff)
  with from_X show "\<forall>pre t post. \<not> X pre t post" by blast
next
  assume "\<forall>pre t post. \<not> X pre t post"
  with to_X have "\<forall>pre cs post. \<not> occurs p s pre cs post" by blast
  then show "re_search p s = None" by (simp add: re_search_None_iff)
qed

lemma run_unique:
  assumes "u @ x = v @ y" and "list_all P u" and "list_all P v"
    and "x = [] \<or> \<not> P (hd x)" and "y = [] \<or> \<not> P (hd y)"
  shows "u = v"
proof -
  have "takeWhile P (u @ x) = u" using assms(2,4)
    by (cases x) (auto simp: takeWhile_append2 list_all_iff intro: takeWhile_eq_all_conv [THEN iffD2])
  moreover have "takeWhile P (v @ y) = v" using assms(3,5)
    by (cases y) (auto simp: takeWhile_append2 list_all_iff intro: takeWhile_eq_all_conv [THEN iffD2])
  ultimately show "u = v" using assms(1) by simp
qed

lemma notin_list_all: "c \<notin> set t \<longleftrightarrow> list_all (\<lambda>x. x \<noteq> c) t"
  by (auto simp: list_all_iff)


lemma item_ok_one:
  "item_ok (Rep a (Suc 0) (Some (Suc 0))) c \<longleftrightarrow> (\<exists>q. c = [q] \<and> atom_ok a q)"
  by (cases c) (auto simp: le_Suc_eq)

lemma item_ok_plus: "item_ok (Rep a (Suc 0) None) c \<longleftrightarrow> c \<noteq> [] \<and> list_all (atom_ok a) c"
  by (cases c) auto

lemma item_ok_star: "item_ok (Rep a 0 None) c \<longleftrightarrow> list_all (atom_ok a) c"
  by simp

lemma item_ok_two: "item_ok (Rep a 2 (Some 2)) c \<longleftrightarrow> length c = 2 \<and> list_all (atom_ok a) c"
  by auto

lemmas shape_simps = parses_def list_all2_Cons1 item_ok_one item_ok_plus item_ok_star item_ok_two
  item_ok.simps(1,3,4)

lemma atom_not_lt: "list_all (atom_ok (NotIn [Ch c])) t \<longleftrightarrow> c \<notin> set t"
  by (auto simp: list_all_iff)

lemma atom_digit: "list_all (atom_ok (In [Digit])) t \<longleftrightarrow> list_all is_digit t"
  by (simp add: list_all_iff)

lemma atom_space: "list_all (atom_ok (In [Space])) t \<longleftrightarrow> list_all is_space t"
  by (simp add: list_all_iff)

lemma atom_quote: "atom_ok (In [Ch dquote, Ch squote]) q \<longleftrightarrow> is_quote q"
  by (auto simp: is_quote_def)

lemma atom_quote2: "atom_ok (In [Ch squote, Ch dquote]) q \<longleftrightarrow> is_quote q"
  by (auto simp: is_quote_def)

lemma atom_nonquote:
  "list_all (atom_ok (NotIn [Ch dquote, Ch squote])) t \<longleftrightarrow> list_all (\<lambda>x. \<not> is_quote x) t"
  by (auto simp: list_all_iff is_quote_def)

lemma atom_upper: "list_all (atom_ok (In [Rng CHR ''A'' CHR ''Z''])) t \<longleftrightarrow> list_all is_upper t"
  by (simp add: list_all_iff is_upper_def)

lemma atom_city:
  "list_all (atom_ok (In [Rng CHR ''A'' CHR ''Z'', Rng CHR ''a'' CHR ''z'', Space, Ch CHR '',''])) t
     \<longleftrightarrow> list_all (\<lambda>x. is_upper x \<or> is_lower x \<or> is_space x \<or> x = CHR '','') t"
  by (simp add: list_all_iff is_upper_def is_lower_def)

lemmas atom_simps = atom_not_lt atom_digit atom_space atom_quote atom_quote2 atom_nonquote
  atom_upper atom_city

subsection \<open>The name pattern\<close>

lemma parses_NAME:
  "parses NAME_RE cs \<longleftrightarrow> (\<exists>t. cs = [''<b>'', [], t, [], ''</b>''] \<and> t \<noteq> [] \<and> CHR ''<'' \<notin> set t)"
  unfolding NAME_RE_def One_nat_def
  by (simp only: shape_simps atom_simps list_all2_Nil) auto

lemma grp_NAME: "grp 1 False NAME_RE [a, b, t, c, d] = t"
  by (simp add: NAME_RE_def)

lemma NAME_to:
  assumes "occurs NAME_RE s pre cs post"
  shows "span_at ''<b>'' ''</b>'' s pre (grp 1 False NAME_RE cs) post"
proof -
  from assms obtain t where t: "cs = [''<b>'', [], t, [], ''</b>'']"
      "s = pre @ concat cs @ post" "t \<noteq> []" "CHR ''<'' \<notin> set t"
    unfolding occurs_def parses_NAME by auto
  have "grp 1 False NAME_RE cs = t" unfolding t(1) by (rule grp_NAME)
  with t show ?thesis by (simp add: span_at_def)
qed

lemma NAME_from:
  assumes "span_at ''<b>'' ''</b>'' s pre t post"
  shows "\<exists>cs. occurs NAME_RE s pre cs post"
proof -
  have "occurs NAME_RE s pre [''<b>'', [], t, [], ''</b>''] post"
    using assms unfolding occurs_def parses_NAME span_at_def by simp
  then show ?thesis ..
qed

lemma span_unique:
  assumes "span_at opn (CHR ''<'' # cls) s pre t post" "span_at opn (CHR ''<'' # cls) s pre t' post'"
  shows "t' = t"
proof -
  from assms have "t' @ (CHR ''<'' # cls @ post') = t @ (CHR ''<'' # cls @ post)"
    by (simp add: span_at_def)
  from run_unique [OF this, of "\<lambda>c. c \<noteq> CHR ''<''"] assms show ?thesis
    by (simp add: span_at_def notin_list_all)
qed

lemma search_NAME_first:
  assumes "span_at ''<b>'' ''</b>'' s pre t post"
    and "\<forall>pre' t' post'. span_at ''<b>'' ''</b>'' s pre' t' post' \<longrightarrow> length pre \<le> length pre'"
  shows "\<exists>m. re_search NAME_RE s = Some m \<and> group 1 m = t"
  using NAME_to NAME_from span_unique [of "''<b>''" "''/b>''" s] assms
  by (rule search_first_capture [where X = "span_at ''<b>'' ''</b>'' s"])

lemma search_NAME_none:
  "re_search NAME_RE s = None \<longleftrightarrow> (\<forall>pre t post. \<not> span_at ''<b>'' ''</b>'' s pre t post)"
  using NAME_to NAME_from by (rule search_none_iff)

subsection \<open>The location patterns\<close>

lemma parses_LOC:
  "parses LOC_RE cs \<longleftrightarrow>
     (\<exists>t g. cs = [''</a>'', [], t, [], ''<br'', g, ''>UNITED STATES'']
        \<and> t \<noteq> [] \<and> CHR ''<'' \<notin> set t \<and> CHR ''>'' \<notin> set g)"
  unfolding LOC_RE_def One_nat_def
  by (simp only: shape_simps atom_simps list_all2_Nil) auto

lemma grp_LOC: "grp 1 False LOC_RE [a, b, t, c, d, e, f] = t"
  by (simp add: LOC_RE_def)

lemma LOC_to:
  assumes "occurs LOC_RE s pre cs post"
  shows "loc_at s pre (grp 1 False LOC_RE cs) post"
proof -
  from assms obtain t g where t: "cs = [''</a>'', [], t, [], ''<br'', g, ''>UNITED STATES'']"
      "s = pre @ concat cs @ post" "t \<noteq> []" "CHR ''<'' \<notin> set t" "CHR ''>'' \<notin> set g"
    unfolding occurs_def parses_LOC by auto
  have "grp 1 False LOC_RE cs = t" unfolding t(1) by (rule grp_LOC)
  moreover have "loc_at s pre t post"
    unfolding loc_at_def by (rule exI [of _ g]) (use t in simp)
  ultimately show ?thesis by simp
qed

lemma LOC_from:
  assumes "loc_at s pre t post"
  shows "\<exists>cs. occurs LOC_RE s pre cs post"
proof -
  from assms obtain g where g: "s = pre @ ''</a>'' @ t @ ''<br'' @ g @ ''>UNITED STATES'' @ post"
      "t \<noteq> []" "CHR ''<'' \<notin> set t" "CHR ''>'' \<notin> set g"
    unfolding loc_at_def by blast
  have "occurs LOC_RE s pre [''</a>'', [], t, [], ''<br'', g, ''>UNITED STATES''] post"
    using g unfolding occurs_def parses_LOC by simp
  then show ?thesis ..
qed

lemma loc_unique:
  assumes "loc_at s pre t post" "loc_at s pre t' post'"
  shows "t' = t"
proof -
  from assms(1) obtain g where g: "s = pre @ ''</a>'' @ t @ ''<br'' @ g @ ''>UNITED STATES'' @ post"
      "CHR ''<'' \<notin> set t"
    unfolding loc_at_def by blast
  from assms(2) obtain g' where g': "s = pre @ ''</a>'' @ t' @ ''<br'' @ g' @ ''>UNITED STATES'' @ post'"
      "CHR ''<'' \<notin> set t'"
    unfolding loc_at_def by blast
  from g(1) g'(1) have "t' @ (CHR ''<'' # ''br'' @ g' @ ''>UNITED STATES'' @ post')
      = t @ (CHR ''<'' # ''br'' @ g @ ''>UNITED STATES'' @ post)"
    by simp
  from run_unique [OF this, of "\<lambda>c. c \<noteq> CHR ''<''"] g(2) g'(2) show ?thesis
    by (simp add: notin_list_all)
qed

lemma search_LOC_first:
  assumes "loc_at s pre t post"
    and "\<forall>pre' t' post'. loc_at s pre' t' post' \<longrightarrow> length pre \<le> length pre'"
  shows "\<exists>m. re_search LOC_RE s = Some m \<and> group 1 m = t"
  using LOC_to LOC_from loc_unique [of s] assms
  by (rule search_first_capture [where X = "loc_at s"])

lemma search_LOC_none:
  "re_search LOC_RE s = None \<longleftrightarrow> (\<forall>pre t post. \<not> loc_at s pre t post)"
  using LOC_to LOC_from by (rule search_none_iff)

lemma parses_LOC2:
  "parses LOC2_RE cs \<longleftrightarrow>
     (\<exists>a b c d. cs = [''</a>'', [], a, b, c, d, [], ''<br'']
        \<and> a \<noteq> [] \<and> list_all (\<lambda>x. is_upper x \<or> is_lower x \<or> is_space x \<or> x = CHR '','') a
        \<and> length b = 2 \<and> list_all is_upper b \<and> list_all is_space c \<and> list_all is_digit d)"
  unfolding LOC2_RE_def One_nat_def
  by (simp only: shape_simps atom_simps list_all2_Nil) auto

lemma grp_LOC2: "grp 1 False LOC2_RE [x, y, a, b, c, d, e, f] = a @ b @ c @ d"
  by (simp add: LOC2_RE_def)

lemma LOC2_to:
  assumes "occurs LOC2_RE s pre cs post"
  shows "loc2_at s pre (grp 1 False LOC2_RE cs) post"
proof -
  from assms obtain a b c d where t: "cs = [''</a>'', [], a, b, c, d, [], ''<br'']"
      "s = pre @ concat cs @ post"
      "a \<noteq> []" "list_all (\<lambda>x. is_upper x \<or> is_lower x \<or> is_space x \<or> x = CHR '','') a"
      "length b = 2" "list_all is_upper b" "list_all is_space c" "list_all is_digit d"
    unfolding occurs_def parses_LOC2 by auto
  have "grp 1 False LOC2_RE cs = a @ b @ c @ d" unfolding t(1) by (rule grp_LOC2)
  moreover have "city_state_zip (a @ b @ c @ d)"
    unfolding city_state_zip_def
    apply (rule exI [of _ a], rule exI [of _ b], rule exI [of _ c], rule exI [of _ d])
    using t(3-8) by simp
  ultimately show ?thesis using t(1,2) by (simp add: loc2_at_def)
qed

lemma LOC2_from:
  assumes "loc2_at s pre t post"
  shows "\<exists>cs. occurs LOC2_RE s pre cs post"
proof -
  from assms obtain a b c d where t: "s = pre @ ''</a>'' @ t @ ''<br'' @ post" "t = a @ b @ c @ d"
      "a \<noteq> []" "list_all (\<lambda>x. is_upper x \<or> is_lower x \<or> is_space x \<or> x = CHR '','') a"
      "length b = 2" "list_all is_upper b" "list_all is_space c" "list_all is_digit d"
    unfolding loc2_at_def city_state_zip_def by auto
  have "occurs LOC2_RE s pre [''</a>'', [], a, b, c, d, [], ''<br''] post"
    using t unfolding occurs_def parses_LOC2 by simp
  then show ?thesis ..
qed

lemma not_lt_chars:
  "is_upper x \<Longrightarrow> x \<noteq> CHR ''<''" "is_lower x \<Longrightarrow> x \<noteq> CHR ''<''"
  "is_space x \<Longrightarrow> x \<noteq> CHR ''<''" "is_digit x \<Longrightarrow> x \<noteq> CHR ''<''"
  by (auto simp: is_upper_def is_lower_def is_space_def is_digit_def)

lemma city_state_zip_no_lt:
  assumes "city_state_zip t"
  shows "list_all (\<lambda>c. c \<noteq> CHR ''<'') t"
proof -
  from assms obtain a b c d where t: "t = a @ b @ c @ d"
      "list_all (\<lambda>x. is_upper x \<or> is_lower x \<or> is_space x \<or> x = CHR '','') a"
      "list_all is_upper b" "list_all is_space c" "list_all is_digit d"
    unfolding city_state_zip_def by auto
  have "list_all (\<lambda>c. c \<noteq> CHR ''<'') a" using t(2) not_lt_chars by (auto simp: list_all_iff)
  moreover have "list_all (\<lambda>c. c \<noteq> CHR ''<'') b" using t(3) not_lt_chars by (auto simp: list_all_iff)
  moreover have "list_all (\<lambda>c. c \<noteq> CHR ''<'') c" using t(4) not_lt_chars by (auto simp: list_all_iff)
  moreover have "list_all (\<lambda>c. c \<noteq> CHR ''<'') d" using t(5) not_lt_chars by (auto simp: list_all_iff)
  ultimately show ?thesis by (simp add: t(1))
qed

lemma loc2_unique:
  assumes "loc2_at s pre t post" "loc2_at s pre t' post'"
  shows "t' = t"
proof -
  from assms have "t' @ (CHR ''<'' # ''br'' @ post') = t @ (CHR ''<'' # ''br'' @ post)"
    "city_state_zip t" "city_state_zip t'"
    unfolding loc2_at_def by auto
  from run_unique [OF this(1), of "\<lambda>c. c \<noteq> CHR ''<''"] this(2,3) show ?thesis
    by (simp add: city_state_zip_no_lt)
qed

lemma search_LOC2_first:
  assumes "loc2_at s pre t post"
    and "\<forall>pre' t' post'. loc2_at s pre' t' post' \<longrightarrow> length pre \<le> length pre'"
  shows "\<exists>m. re_search LOC2_RE s = Some m \<and> group 1 m = t"
  using LOC2_to LOC2_from loc2_unique [of s] assms
  by (rule search_first_capture [where X = "loc2_at s"])

lemma search_LOC2_none:
  "re_search LOC2_RE s = None \<longleftrightarrow> (\<forall>pre t post. \<not> loc2_at s pre t post)"
  using LOC2_to LOC2_from by (rule search_none_iff)

subsection \<open>The event id patterns\<close>

lemma digits_run: "digits d \<Longrightarrow> list_all is_digit d"
  by (simp add: digits_def)

lemma paren_not_digit: "\<not> is_digit CHR '')''"
  by (simp add: is_digit_def)

lemma parses_ONCLICK:
  "parses ONCLICK_RE cs \<longleftrightarrow>
     (\<exists>q1 d q2. cs = [''onclick='', [q1], ''viewEvent('', [], d, [], '')'', [q2]]
        \<and> is_quote q1 \<and> is_quote q2 \<and> digits d)"
  unfolding ONCLICK_RE_def One_nat_def digits_def
  by (simp only: shape_simps atom_simps list_all2_Nil) auto

lemma parses_ONCLICK2: "parses ONCLICK2_RE cs \<longleftrightarrow> parses ONCLICK_RE cs"
  unfolding ONCLICK_RE_def ONCLICK2_RE_def One_nat_def
  by (simp only: shape_simps atom_simps list_all2_Nil)

lemma grp_ONCLICK: "grp 1 False ONCLICK_RE [a, b, c, e, d, f, g, h] = d"
  by (simp add: ONCLICK_RE_def)

lemma ONCLICK_to:
  assumes "occurs ONCLICK_RE s pre cs post"
  shows "onclick_at s pre (grp 1 False ONCLICK_RE cs) post"
proof -
  from assms obtain q1 d q2 where t: "cs = [''onclick='', [q1], ''viewEvent('', [], d, [], '')'', [q2]]"
      "s = pre @ concat cs @ post" "is_quote q1" "is_quote q2" "digits d"
    unfolding occurs_def parses_ONCLICK by auto
  have "grp 1 False ONCLICK_RE cs = d" unfolding t(1) by (rule grp_ONCLICK)
  moreover have "onclick_at s pre d post"
    unfolding onclick_at_def
    by (rule exI [of _ q1], rule exI [of _ q2]) (use t in simp)
  ultimately show ?thesis by simp
qed

lemma ONCLICK_from:
  assumes "onclick_at s pre d post"
  shows "\<exists>cs. occurs ONCLICK_RE s pre cs post"
proof -
  from assms obtain q1 q2 where
    g: "s = pre @ ''onclick='' @ [q1] @ ''viewEvent('' @ d @ '')'' @ [q2] @ post"
      "is_quote q1" "is_quote q2" "digits d"
    unfolding onclick_at_def by blast
  have "occurs ONCLICK_RE s pre [''onclick='', [q1], ''viewEvent('', [], d, [], '')'', [q2]] post"
    using g unfolding occurs_def parses_ONCLICK by simp
  then show ?thesis ..
qed

lemma onclick_unique:
  assumes "onclick_at s pre d post" "onclick_at s pre d' post'"
  shows "d' = d"
proof -
  from assms(1) obtain q1 q2 where
    g: "s = pre @ ''onclick='' @ [q1] @ ''viewEvent('' @ d @ '')'' @ [q2] @ post" "digits d"
    unfolding onclick_at_def by blast
  from assms(2) obtain q1' q2' where
    g': "s = pre @ ''onclick='' @ [q1'] @ ''viewEvent('' @ d' @ '')'' @ [q2'] @ post'" "digits d'"
    unfolding onclick_at_def by blast
  from g(1) g'(1) have "d' @ (CHR '')'' # q2' # post') = d @ (CHR '')'' # q2 # post)"
    by simp
  from run_unique [OF this, of is_digit] g(2) g'(2) show ?thesis
    by (simp add: digits_run paren_not_digit)
qed

lemma search_ONCLICK_first:
  assumes "onclick_at s pre d post"
    and "\<forall>pre' d' post'. onclick_at s pre' d' post' \<longrightarrow> length pre \<le> length pre'"
  shows "\<exists>m. re_search ONCLICK_RE s = Some m \<and> group 1 m = d"
  using ONCLICK_to ONCLICK_from onclick_unique [of s] assms
  by (rule search_first_capture [where X = "onclick_at s"])

lemma search_ONCLICK_none:
  "re_search ONCLICK_RE s = None \<longleftrightarrow> (\<forall>pre d post. \<not> onclick_at s pre d post)"
  using ONCLICK_to ONCLICK_from by (rule search_none_iff)

lemma search_ONCLICK2_none:
  "re_search ONCLICK_RE s = None \<Longrightarrow> re_search ONCLICK2_RE s = None"
  by (simp add: re_search_None_iff occurs_def parses_ONCLICK2)

lemma parses_VIEW:
  "parses VIEW_RE cs \<longleftrightarrow> (\<exists>d. cs = [''viewEvent('', [], d, [], '')''] \<and> digits d)"
  unfolding VIEW_RE_def One_nat_def digits_def
  by (simp only: shape_simps atom_simps list_all2_Nil) auto

lemma grp_VIEW: "grp 1 False VIEW_RE [a, b, d, e, f] = d"
  by (simp add: VIEW_RE_def)

lemma VIEW_to:
  assumes "occurs VIEW_RE s pre cs post"
  shows "view_at s pre (grp 1 False VIEW_RE cs) post"
proof -
  from assms obtain d where t: "cs = [''viewEvent('', [], d, [], '')'']"
      "s = pre @ concat cs @ post" "digits d"
    unfolding occurs_def parses_VIEW by auto
  have "grp 1 False VIEW_RE cs = d" unfolding t(1) by (rule grp_VIEW)
  with t show ?thesis by (simp add: view_at_def)
qed

lemma VIEW_from:
  assumes "view_at s pre d post"
  shows "\<exists>cs. occurs VIEW_RE s pre cs post"
proof -
  have "occurs VIEW_RE s pre [''viewEvent('', [], d, [], '')''] post"
    using assms unfolding occurs_def parses_VIEW view_at_def by simp
  then show ?thesis ..
qed

lemma view_unique:
  assumes "view_at s pre d post" "view_at s pre d' post'"
  shows "d' = d"
proof -
  from assms have "d' @ (CHR '')'' # post') = d @ (CHR '')'' # post)" "digits d" "digits d'"
    by (simp_all add: view_at_def)
  from run_unique [OF this(1), of is_digit] this(2,3) show ?thesis
    by (simp add: digits_run paren_not_digit)
qed

lemma search_VIEW_first:
  assumes "view_at s pre d post"
    and "\<forall>pre' d' post'. view_at s pre' d' post' \<longrightarrow> length pre \<le> length pre'"
  shows "\<exists>m. re_search VIEW_RE s = Some m \<and> group 1 m = d"
  using VIEW_to VIEW_from view_unique [of s] assms
  by (rule search_first_capture [where X = "view_at s"])

lemma search_VIEW_none:
  "re_search VIEW_RE s = None \<longleftrightarrow> (\<forall>pre d post. \<not> view_at s pre d post)"
  using VIEW_to VIEW_from by (rule search_none_iff)

text \<open>An onclick attribute holds a bare call, so no bare call means no onclick attribute.\<close>

lemma onclick_is_view:
  assumes "onclick_at s pre d post"
  shows "\<exists>pre' post'. view_at s pre' d post'"
proof -
  from assms obtain q1 q2 where
    g: "s = pre @ ''onclick='' @ [q1] @ ''viewEvent('' @ d @ '')'' @ [q2] @ post" "digits d"
    unfolding onclick_at_def by blast
  have "view_at s (pre @ ''onclick='' @ [q1]) d (q2 # post)"
    using g by (simp add: view_at_def)
  then show ?thesis by blast
qed

subsection \<open>The hyperlink pattern\<close>

lemma parses_HREF:
  "parses HREF_RE cs \<longleftrightarrow>
     (\<exists>q1 a b d c q2. cs = [''href='', [q1], [], a, ''evr'', b, ''evid='', [], d, [], c, [], [q2]]
        \<and> is_quote q1 \<and> is_quote q2 \<and> digits d
        \<and> list_all (\<lambda>x. \<not> is_quote x) a \<and> list_all (\<lambda>x. \<not> is_quote x) b
        \<and> list_all (\<lambda>x. \<not> is_quote x) c)"
  unfolding HREF_RE_def One_nat_def digits_def
  by (simp only: shape_simps atom_simps list_all2_Nil) auto

lemma grp_HREF:
  "grp 1 False HREF_RE [x1, x2, x3, a, e1, b, e2, x4, d, x5, c, x6, x7] = a @ e1 @ b @ e2 @ d @ c"
  by (simp add: HREF_RE_def)

lemma HREF_to:
  assumes "occurs HREF_RE s pre cs post"
  shows "href_at s pre (grp 1 False HREF_RE cs) post"
proof -
  from assms obtain q1 a b d c q2 where
    t: "cs = [''href='', [q1], [], a, ''evr'', b, ''evid='', [], d, [], c, [], [q2]]"
      "s = pre @ concat cs @ post" "is_quote q1" "is_quote q2" "digits d"
      "list_all (\<lambda>x. \<not> is_quote x) a" "list_all (\<lambda>x. \<not> is_quote x) b"
      "list_all (\<lambda>x. \<not> is_quote x) c"
    unfolding occurs_def parses_HREF by auto
  have "grp 1 False HREF_RE cs = a @ ''evr'' @ b @ ''evid='' @ d @ c"
    unfolding t(1) by (rule grp_HREF)
  moreover have "href_at s pre (a @ ''evr'' @ b @ ''evid='' @ d @ c) post"
    unfolding href_at_def
    by (rule exI [of _ q1], rule exI [of _ q2], rule exI [of _ a], rule exI [of _ b],
        rule exI [of _ d], rule exI [of _ c]) (use t in simp)
  ultimately show ?thesis by simp
qed

lemma HREF_from:
  assumes "href_at s pre t post"
  shows "\<exists>cs. occurs HREF_RE s pre cs post"
proof -
  from assms obtain q1 q2 a b d c where
    g: "s = pre @ ''href='' @ [q1] @ t @ [q2] @ post" "t = a @ ''evr'' @ b @ ''evid='' @ d @ c"
      "is_quote q1" "is_quote q2" "digits d"
      "list_all (\<lambda>x. \<not> is_quote x) a" "list_all (\<lambda>x. \<not> is_quote x) b"
      "list_all (\<lambda>x. \<not> is_quote x) c"
    unfolding href_at_def by auto
  have "occurs HREF_RE s pre
      [''href='', [q1], [], a, ''evr'', b, ''evid='', [], d, [], c, [], [q2]] post"
    using g unfolding occurs_def parses_HREF by simp
  then show ?thesis ..
qed

lemma not_quote_chars:
  "is_digit x \<Longrightarrow> \<not> is_quote x"
  "x \<in> set ''evr'' \<Longrightarrow> \<not> is_quote x" "x \<in> set ''evid='' \<Longrightarrow> \<not> is_quote x"
  by (auto simp: is_digit_def is_quote_def dquote_def squote_def)

lemma href_target_no_quote:
  assumes "href_at s pre t post"
  shows "list_all (\<lambda>x. \<not> is_quote x) t"
proof -
  from assms obtain a b d c where t: "t = a @ ''evr'' @ b @ ''evid='' @ d @ c" "digits d"
      "list_all (\<lambda>x. \<not> is_quote x) a" "list_all (\<lambda>x. \<not> is_quote x) b"
      "list_all (\<lambda>x. \<not> is_quote x) c"
    unfolding href_at_def by auto
  have "list_all (\<lambda>x. \<not> is_quote x) d"
    using t(2) not_quote_chars(1) by (auto simp: digits_def list_all_iff)
  moreover have "list_all (\<lambda>x. \<not> is_quote x) ''evr''" "list_all (\<lambda>x. \<not> is_quote x) ''evid=''"
    using not_quote_chars(2,3) by (simp_all add: list_all_iff)
  ultimately show ?thesis using t(3-5) unfolding t(1) by (simp only: list_all_append)
qed

lemma href_unique:
  assumes "href_at s pre t post" "href_at s pre t' post'"
  shows "t' = t"
proof -
  from assms(1) obtain q1 q2 where g: "s = pre @ ''href='' @ [q1] @ t @ [q2] @ post" "is_quote q2"
    unfolding href_at_def by blast
  from assms(2) obtain q1' q2' where g': "s = pre @ ''href='' @ [q1'] @ t' @ [q2'] @ post'" "is_quote q2'"
    unfolding href_at_def by blast
  from g(1) g'(1) have "t' @ (q2' # post') = t @ (q2 # post)" by simp
  from run_unique [OF this, of "\<lambda>x. \<not> is_quote x"] href_target_no_quote [OF assms(1)]
    href_target_no_quote [OF assms(2)] g(2) g'(2)
  show ?thesis by simp
qed

lemma search_HREF_first:
  assumes "href_at s pre t post"
    and "\<forall>pre' t' post'. href_at s pre' t' post' \<longrightarrow> length pre \<le> length pre'"
  shows "\<exists>m. re_search HREF_RE s = Some m \<and> group 1 m = t"
  using HREF_to HREF_from href_unique [of s] assms
  by (rule search_first_capture [where X = "href_at s"])

lemma search_HREF_none:
  "re_search HREF_RE s = None \<longleftrightarrow> (\<forall>pre t post. \<not> href_at s pre t post)"
  using HREF_to HREF_from by (rule search_none_iff)

subsection \<open>The fields of a record\<close>

lemma event_name_first_span:
  assumes "span_at ''<b>'' ''</b>'' html pre t post"
    and "\<forall>pre' t' post'. span_at ''<b>'' ''</b>'' html pre' t' post' \<longrightarrow> length pre \<le> length pre'"
  shows "event_name_of name html = JStr (strip t)"
  using search_NAME_first [OF assms] by (auto simp: event_name_of_def)

lemma event_name_no_span:
  assumes "\<forall>pre t post. \<not> span_at ''<b>'' ''</b>'' html pre t post"
  shows "event_name_of name html = name"
  using assms search_NAME_none [of html] by (simp add: event_name_of_def)

lemma parse_event_props:
  assumes "map_of ev ''properties'' = Some (JObj p)"
    and "dict_get p ''html_content'' (JStr []) = JStr html"
  shows "parse_event (JObj ev) =
     Inr (if truthy (event_name_of (dict_get p ''name'' (JStr [])) html)
          then Some (format_line (event_name_of (dict_get p ''name'' (JStr [])) html)
                 (distance_of html) (dates_of html) (location_of html) (rep_name_of html)
                 (event_url_of (event_id_of ev p) html))
          else None)"
  using assms by (simp add: parse_event_def Let_def)

lemma location_first:
  assumes "loc_at html pre t post"
    and "\<forall>pre' t' post'. loc_at html pre' t' post' \<longrightarrow> length pre \<le> length pre'"
  shows "location_of html = strip t"
  using search_LOC_first [OF assms] by (auto simp: location_of_def)

lemma location_second:
  assumes "\<forall>pre' t' post'. \<not> loc_at html pre' t' post'"
    and "loc2_at html pre t post"
    and "\<forall>pre' t' post'. loc2_at html pre' t' post' \<longrightarrow> length pre \<le> length pre'"
  shows "location_of html = strip t"
  using search_LOC2_first [OF assms(2,3)] assms(1) search_LOC_none [of html]
  by (auto simp: location_of_def)

lemma location_none:
  assumes "\<forall>pre' t' post'. \<not> loc_at html pre' t' post'"
    and "\<forall>pre' t' post'. \<not> loc2_at html pre' t' post'"
  shows "location_of html = []"
  using assms search_LOC_none [of html] search_LOC2_none [of html]
  by (simp add: location_of_def)

lemma event_id_found:
  "find truthy (id_candidates ev p) = Some i \<Longrightarrow> event_id_of ev p = i \<and> truthy i"
  by (auto simp: id_candidates_def event_id_of_def py_or_def split: if_splits)

lemma event_id_not_found:
  "find truthy (id_candidates ev p) = None \<Longrightarrow> \<not> truthy (event_id_of ev p)"
  by (auto simp: id_candidates_def event_id_of_def py_or_def split: if_splits)

lemma url_of_id: "truthy eid \<Longrightarrow> event_url_of eid html = EVENT_URL @ py_str eid"
  by (simp add: event_url_of_def)

lemma url_onclick:
  assumes "\<not> truthy eid" and "onclick_at html pre d post"
    and "\<forall>pre' d' post'. onclick_at html pre' d' post' \<longrightarrow> length pre \<le> length pre'"
  shows "event_url_of eid html = EVENT_URL @ d"
  using search_ONCLICK_first [OF assms(2,3)] assms(1) by (auto simp: event_url_of_def)

lemma url_view:
  assumes "\<not> truthy eid" and "\<forall>pre' d' post'. \<not> onclick_at html pre' d' post'"
    and "view_at html pre d post"
    and "\<forall>pre' d' post'. view_at html pre' d' post' \<longrightarrow> length pre \<le> length pre'"
  shows "event_url_of eid html = EVENT_URL @ d"
proof -
  have "re_search ONCLICK_RE html = None" using assms(2) by (simp add: search_ONCLICK_none)
  moreover from this have "re_search ONCLICK2_RE html = None" by (rule search_ONCLICK2_none)
  ultimately show ?thesis
    using search_VIEW_first [OF assms(3,4)] assms(1) by (auto simp: event_url_of_def)
qed

lemma no_view_no_search:
  assumes "\<forall>pre' d' post'. \<not> view_at html pre' d' post'"
  shows "re_search ONCLICK_RE html = None \<and> re_search ONCLICK2_RE html = None
    \<and> re_search VIEW_RE html = None"
proof -
  have "\<forall>pre' d' post'. \<not> onclick_at html pre' d' post'"
    using assms onclick_is_view by blast
  then have "re_search ONCLICK_RE html = None" by (simp add: search_ONCLICK_none)
  moreover from this have "re_search ONCLICK2_RE html = None" by (rule search_ONCLICK2_none)
  moreover have "re_search VIEW_RE html = None" using assms by (simp add: search_VIEW_none)
  ultimately show ?thesis by simp
qed

lemma url_href:
  assumes "\<not> truthy eid" and "\<forall>pre' d' post'. \<not> view_at html pre' d' post'"
    and "href_at html pre t post"
    and "\<forall>pre' t' post'. href_at html pre' t' post' \<longrightarrow> length pre \<le> length pre'"
  shows "event_url_of eid html = absolute_url t"
  using search_HREF_first [OF assms(3,4)] assms(1) no_view_no_search [OF assms(2)]
  by (auto simp: event_url_of_def href_url_def absolute_url_def Let_def)

lemma url_nothing:
  assumes "\<not> truthy eid" and "\<forall>pre' d' post'. \<not> view_at html pre' d' post'"
    and "\<forall>pre' t' post'. \<not> href_at html pre' t' post'"
  shows "event_url_of eid html = []"
  using assms(1,3) no_view_no_search [OF assms(2)] search_HREF_none [of html]
  by (simp add: event_url_of_def href_url_def)

section \<open>The date range\<close>

lemma div_step:
  fixes z k :: int
  assumes "0 < k"
  shows "z div k = (z - 1) div k + (if z mod k = 0 then 1 else 0)"
proof (cases "z mod k = 0")
  case True
  have "z - 1 = k * (z div k - 1) + (k - 1)"
    using True by (simp add: algebra_simps) (metis True add.right_neutral mult.commute mult_div_mod_eq)
  then have "(z - 1) div k = z div k - 1"
    using assms by (intro int_div_pos_eq [where r = "k - 1"]) simp_all
  then show ?thesis using True by simp
next
  case False
  have "0 \<le> z mod k" "z mod k < k" using assms by simp_all
  with False have r: "0 \<le> z mod k - 1" "z mod k - 1 < k" by simp_all
  have "z - 1 = k * (z div k) + (z mod k - 1)" by (simp add: algebra_simps)
  then have "(z - 1) div k = z div k"
    using r by (intro int_div_pos_eq [where r = "z mod k - 1"]) simp_all
  then show ?thesis using False by simp
qed

lemma is_leap_int:
  "is_leap y \<longleftrightarrow> int y mod 4 = 0 \<and> (int y mod 100 \<noteq> 0 \<or> int y mod 400 = 0)"
  unfolding is_leap_def by presburger

lemma mod_chain:
  fixes z :: int
  shows "z mod 100 = 0 \<Longrightarrow> z mod 4 = 0" and "z mod 400 = 0 \<Longrightarrow> z mod 100 = 0"
proof -
  have "z mod 100 mod 4 = z mod 4" by (rule mod_mod_cancel) simp
  then show "z mod 100 = 0 \<Longrightarrow> z mod 4 = 0" by simp
  have "z mod 400 mod 100 = z mod 100" by (rule mod_mod_cancel) simp
  then show "z mod 400 = 0 \<Longrightarrow> z mod 100 = 0" by simp
qed

lemma days_before_year_Suc:
  "days_before_year (Suc y) = days_before_year y + (if is_leap y then 366 else 365)"
proof -
  define z where "z = int y"
  define q4 where "q4 = (z - 1) div 4"
  define q100 where "q100 = (z - 1) div 100"
  define q400 where "q400 = (z - 1) div 400"
  have d: "z div 4 = q4 + (if z mod 4 = 0 then 1 else 0)"
    "z div 100 = q100 + (if z mod 100 = 0 then 1 else 0)"
    "z div 400 = q400 + (if z mod 400 = 0 then 1 else 0)"
    unfolding q4_def q100_def q400_def by (rule div_step, simp)+
  have e1: "days_before_year (Suc y) = z * 365 + z div 4 - z div 100 + z div 400"
    by (simp add: days_before_year_def Let_def z_def)
  have e0: "days_before_year y = (z - 1) * 365 + q4 - q100 + q400"
    by (simp add: days_before_year_def Let_def z_def q4_def q100_def q400_def)
  have l: "is_leap y \<longleftrightarrow> z mod 4 = 0 \<and> (z mod 100 \<noteq> 0 \<or> z mod 400 = 0)"
    by (simp only: is_leap_int z_def)
  consider "z mod 4 \<noteq> 0" | "z mod 4 = 0" "z mod 100 \<noteq> 0" | "z mod 100 = 0" "z mod 400 \<noteq> 0"
    | "z mod 400 = 0" by atomize_elim auto
  then show ?thesis
  proof cases
    case 1
    then have "z mod 100 \<noteq> 0" "z mod 400 \<noteq> 0" using mod_chain [of z] by auto
    with 1 show ?thesis unfolding e1 e0 l d by simp
  next
    case 2
    then have "z mod 400 \<noteq> 0" using mod_chain [of z] by auto
    with 2 show ?thesis unfolding e1 e0 l d by simp
  next
    case 3
    then have "z mod 4 = 0" using mod_chain [of z] by auto
    with 3 show ?thesis unfolding e1 e0 l d by simp
  next
    case 4
    then have "z mod 100 = 0" "z mod 4 = 0" using mod_chain [of z] by auto
    with 4 show ?thesis unfolding e1 e0 l d by simp
  qed
qed

lemma days_before_month_Suc:
  "1 \<le> m \<Longrightarrow> days_before_month y (Suc m) = days_before_month y m + int (days_in_month y m)"
  by (simp add: days_before_month_def)

lemma days_before_month_1: "days_before_month y (Suc 0) = 0"
  by (simp add: days_before_month_def)

lemma days_before_month_12:
  "days_before_month y 12 = (if is_leap y then 335 else 334)"
proof -
  have "[1..<12] = [1, 2, 3, 4, 5, 6, 7, 8, 9, 10, 11 :: nat]"
    by code_simp
  then show ?thesis by (simp add: days_before_month_def days_in_month_def)
qed

lemma tomorrow_ord:
  assumes "valid_date d" and "d \<noteq> MAXDATE"
  shows "valid_date (tomorrow d) \<and> toordinal (tomorrow d) = toordinal d + 1"
proof (cases "day d < days_in_month (year d) (month d)")
  case True
  then show ?thesis using assms(1) by (simp add: tomorrow_def valid_date_def toordinal_def)
next
  case False
  then have dd: "day d = days_in_month (year d) (month d)" using assms(1) by (simp add: valid_date_def)
  show ?thesis
  proof (cases "month d < 12")
    case True
    then show ?thesis
      using assms(1) dd days_before_month_Suc [of "month d" "year d"]
      by (simp add: tomorrow_def valid_date_def toordinal_def days_in_month_def)
  next
    case False
    then have m: "month d = 12" using assms(1) by (simp add: valid_date_def)
    then have d31: "day d = 31" using dd by (simp add: days_in_month_def)
    have "year d \<noteq> 9999"
    proof
      assume "year d = 9999"
      with m d31 have "d = MAXDATE" by (simp add: MAXDATE_def)
      with assms(2) show False by simp
    qed
    then have y: "year d + 1 \<le> 9999" using assms(1) by (simp add: valid_date_def)
    have "toordinal (tomorrow d) = days_before_year (Suc (year d)) + 1"
      using m d31 by (simp add: tomorrow_def toordinal_def days_in_month_def days_before_month_1)
    also have "\<dots> = toordinal d + 1"
      using m d31 by (simp add: days_before_year_Suc toordinal_def days_before_month_12)
    finally show ?thesis
      using m d31 y assms(1) by (simp add: tomorrow_def valid_date_def days_in_month_def)
  qed
qed

lemma add_days_ord:
  "valid_date d \<Longrightarrow> toordinal d + int n \<le> toordinal MAXDATE \<Longrightarrow>
     \<exists>e. add_days n d = Inr e \<and> valid_date e \<and> toordinal e = toordinal d + int n"
proof (induction n arbitrary: d)
  case 0
  then show ?case by simp
next
  case (Suc n)
  from Suc.prems(2) have ne: "d \<noteq> MAXDATE" by auto
  from tomorrow_ord [OF Suc.prems(1) ne]
  have t: "valid_date (tomorrow d)" "toordinal (tomorrow d) = toordinal d + 1" by simp_all
  have "toordinal (tomorrow d) + int n \<le> toordinal MAXDATE" using t(2) Suc.prems(2) by simp
  from Suc.IH [OF t(1) this] obtain e where
    "add_days n (tomorrow d) = Inr e" "valid_date e" "toordinal e = toordinal (tomorrow d) + int n"
    by blast
  then show ?case using ne t(2) by simp
qed

lemma div_10_10: "(n :: nat) div 10 div 10 = n div 100" "(n :: nat) div 10 div 100 = n div 1000"
  by (simp_all add: div_mult2_eq [symmetric])

lemma replicate_small: "replicate 3 c = [c, c, c]" "replicate 2 c = [c, c]"
  by (simp_all add: numeral_3_eq_3 numeral_2_eq_2)

lemma dec_nat_1: "n < 10 \<Longrightarrow> dec_nat n = [digit_char n]"
  by (simp add: dec_nat.simps)

lemma dec_nat_2: "10 \<le> n \<Longrightarrow> n < 100 \<Longrightarrow> dec_nat n = [digit_char (n div 10), digit_char (n mod 10)]"
  by (subst dec_nat.simps) (simp add: dec_nat_1)

lemma dec_nat_3:
  "100 \<le> n \<Longrightarrow> n < 1000 \<Longrightarrow>
     dec_nat n = [digit_char (n div 100), digit_char (n div 10 mod 10), digit_char (n mod 10)]"
  by (subst dec_nat.simps) (simp add: dec_nat_2 div_10_10)

lemma dec_nat_4:
  "1000 \<le> n \<Longrightarrow> n < 10000 \<Longrightarrow>
     dec_nat n = [digit_char (n div 1000), digit_char (n div 100 mod 10),
       digit_char (n div 10 mod 10), digit_char (n mod 10)]"
  by (subst dec_nat.simps) (simp add: dec_nat_3 div_10_10)

lemma zfill_two: "n < 100 \<Longrightarrow> zfill 2 (dec_nat n) = two_digits n"
  by (cases "n < 10") (simp_all add: zfill_def two_digits_def dec_nat_1 dec_nat_2 digit_char_def)

lemma zfill_four: "n < 10000 \<Longrightarrow> zfill 4 (dec_nat n) = four_digits n"
proof -
  assume n: "n < 10000"
  consider "n < 10" | "10 \<le> n" "n < 100" | "100 \<le> n" "n < 1000" | "1000 \<le> n"
    by atomize_elim auto
  then show ?thesis
  proof cases
    case 1
    then show ?thesis by (simp add: zfill_def four_digits_def dec_nat_1 digit_char_def replicate_small)
  next
    case 2
    then show ?thesis by (simp add: zfill_def four_digits_def dec_nat_2 digit_char_def replicate_small)
  next
    case 3
    then show ?thesis by (simp add: zfill_def four_digits_def dec_nat_3 digit_char_def replicate_small)
  next
    case 4
    then show ?thesis using n by (simp add: zfill_def four_digits_def dec_nat_4)
  qed
qed

lemma strftime_mdy_text: "valid_date d \<Longrightarrow> strftime_mdy d = mdy_text d"
proof -
  assume v: "valid_date d"
  then have "month d < 100" "year d < 10000" by (simp_all add: valid_date_def)
  moreover have "day d < 100"
    using v by (auto simp: valid_date_def days_in_month_def split: if_splits)
  ultimately show ?thesis by (simp add: strftime_mdy_def mdy_text_def zfill_two zfill_four)
qed

lemma search_with_range:
  "get_date_range (clock w) = Inr (b, e) \<Longrightarrow>
     search_events_by_radius w zipcode radius =
       (case http_get w (request_url zipcode radius b e) of
          None \<Rightarrow> Inr JNull
        | Some data \<Rightarrow> Inr (handle_response (json_loads w) data))"
  by (simp add: search_events_by_radius_def)

text \<open>A record whose \<^verbatim>\<open>html_content\<close> is not a string raises, and adds no line.\<close>

lemma parse_event_html_not_string:
  assumes "map_of ev ''properties'' = Some (JObj p)"
    and "\<forall>html. dict_get p ''html_content'' (JStr []) \<noteq> JStr html"
  shows "parse_event (JObj ev) = Inl TypeError"
    and "events_loop (JObj ev # events) output_lines = events_loop events output_lines"
proof -
  show "parse_event (JObj ev) = Inl TypeError"
    using assms by (cases "dict_get p ''html_content'' (JStr [])") (simp_all add: parse_event_def)
  then show "events_loop (JObj ev # events) output_lines = events_loop events output_lines"
    by simp
qed

section \<open>Where an exception can leave the extraction\<close>

text \<open>The loop itself never raises; the only exception that leaves \<^verbatim>\<open>parse_events\<close> is the
  TypeError of \<^verbatim>\<open>len\<close> on a selected record list that has no length.\<close>

lemma py_iter_of_len: "py_len v = Inr n \<Longrightarrow> \<exists>xs. py_iter v = Inr xs"
  by (cases v) auto

lemma parse_events_raises_iff:
  "(\<exists>e. parse_events d = Inl e) \<longleftrightarrow> truthy d \<and> py_len (select_events d) = Inl TypeError"
proof (cases "py_len (select_events d)")
  case (Inl e)
  then have "e = TypeError" by (cases "select_events d") auto
  with Inl show ?thesis by (auto simp: parse_events_def process_records_def)
next
  case (Inr n)
  from py_iter_of_len [OF this] obtain xs where "py_iter (select_events d) = Inr xs" by blast
  with Inr show ?thesis by (auto simp: parse_events_def process_records_def)
qed

section \<open>The claims\<close>

text \<open>
  C1 (extraction never ends the process, whatever the payload). The source breaks it at
  \<^verbatim>\<open>len(events)\<close>, which stands outside the \<^verbatim>\<open>try\<close> block: on the payload
  \<^verbatim>\<open>{"features": null}\<close> the selected record list is None, \<^verbatim>\<open>len\<close> raises a TypeError and
  the exception leaves \<^verbatim>\<open>parse_events\<close>.
\<close>

theorem parse_events_features_null_raises:
  "parse_events (JObj [(''features'', JNull)]) = Inl TypeError"
  by (simp add: events_defs)

text \<open>
  C2 (the end-to-end scenario). The payload with the one record of id 7, name Smokeout and
  the given \<^verbatim>\<open>html_content\<close> yields exactly one line, the one the specification gives.
\<close>

theorem parse_events_smokeout:
  "parse_events
     (JObj [(''features'',
        JArr [JObj [(''id'', JInt 7),
          (''properties'',
            JObj [(''name'', JStr ''Smokeout''),
              (''html_content'',
                JStr ''<b>Smokeout</b> <i>6/1/2026 - 6/2/2026</i> DIST: 10 mi </a>Austin, TX 78701<br />UNITED STATES Reps: JANE DOE'')])]])])
   = Inr [''Smokeout|10 mi|6/1/2026 - 6/2/2026|Austin, TX 78701|JANE DOE|https://mms.kcbs.us/members/evr/reg_event_kcba.php?orgcode=KCBA&evid=7'']"
  by (simp add: events_defs re_defs field_defs value_defs)

text \<open>
  C3 (record-list discovery). The record list the source selects is the one the
  specification describes (\<open>record_list_spec\<close>), and \<^verbatim>\<open>parse_events\<close> is the rest of the
  function run on it; the early return on a false payload agrees, since the record list of
  a false payload is empty. A mapping with both \<^verbatim>\<open>features\<close> and \<^verbatim>\<open>events\<close> selects the value
  of \<^verbatim>\<open>features\<close>, wherever the keys stand.
\<close>

theorem record_list_priority:
  "select_events root = record_list_spec root
   \<and> parse_events root = process_records (record_list_spec root)
   \<and> (map_of d ''features'' = Some f \<and> map_of d ''events'' = Some e
        \<longrightarrow> record_list_spec (JObj d) = f \<and> parse_events (JObj d) = process_records f)"
proof -
  have a: "parse_events root = process_records (record_list_spec root)" for root
    by (cases "truthy root")
      (simp_all add: parse_events_def select_events_spec falsy_record_list process_empty)
  have b: "record_list_spec (JObj d) = f" if "map_of d ''features'' = Some f"
    using that by (simp add: record_list_spec_def map_of_key_iff)
  show ?thesis using a b by (simp add: select_events_spec)
qed

theorem record_list_priority_witness:
  "map_of [(''events'', JArr [JInt 1]), (''features'', JArr [JInt 2])] ''features''
     = Some (JArr [JInt 2])
   \<and> map_of [(''events'', JArr [JInt 1]), (''features'', JArr [JInt 2])] ''events''
     = Some (JArr [JInt 1])
   \<and> record_list_spec (JObj [(''events'', JArr [JInt 1]), (''features'', JArr [JInt 2])])
     = JArr [JInt 2]
   \<and> parse_events (JObj [(''events'', JArr [JInt 1]), (''features'', JArr [JInt 2])]) = Inr []"
  using record_list_priority [of "JObj [(''events'', JArr [JInt 1]), (''features'', JArr [JInt 2])]"
     "[(''events'', JArr [JInt 1]), (''features'', JArr [JInt 2])]" "JArr [JInt 2]" "JArr [JInt 1]"]
  by (simp add: process_records_def parse_event_def)

text \<open>
  C8 as stated (on every run the output file is truncated and rewritten, and a run that
  produced a line writes it and exits with 0) fails on three runs. A run without
  \<^verbatim>\<open>ZIPCODE\<close>, which the configuration check ends before \<^verbatim>\<open>main\<close>, and a run whose payload
  is \<^verbatim>\<open>{"features": null}\<close>, where the TypeError of C1 ends \<^verbatim>\<open>main\<close> before the file is
  opened, both leave a file of an earlier run as it was. A run that produced the line of
  an event named with an accented letter, on a file whose encoding is ASCII, leaves the
  file empty and exits with 1.
\<close>

theorem run_output_counterexample:
  "script \<lparr>env_zipcode = None, clock = \<lparr>year = 2026, month = 11, day = 4\<rparr>,
     http_get = (\<lambda>u. None), json_loads = (\<lambda>s. None), output_file = Some ''stale'',
     file_opens = True, file_encodes = (\<lambda>c. True)\<rparr>
     = \<lparr>exit_code = 1, file_after = Some ''stale''\<rparr>
   \<and> script \<lparr>env_zipcode = Some ''23228'', clock = \<lparr>year = 2026, month = 11, day = 4\<rparr>,
     http_get = (\<lambda>u. Some ''{}''), json_loads = (\<lambda>s. Some (JObj [(''features'', JNull)])),
     output_file = Some ''stale'', file_opens = True, file_encodes = (\<lambda>c. True)\<rparr>
     = \<lparr>exit_code = 1, file_after = Some ''stale''\<rparr>
   \<and> parse_events (JArr [JObj [(''properties'', JObj [(''name'', JStr [CHR 0xE9])])]])
     = Inr [[CHR 0xE9] @ ''|||||'']
   \<and> script \<lparr>env_zipcode = Some ''23228'', clock = \<lparr>year = 2026, month = 11, day = 4\<rparr>,
     http_get = (\<lambda>u. Some ''{}''),
     json_loads = (\<lambda>s. Some (JArr [JObj [(''properties'', JObj [(''name'', JStr [CHR 0xE9])])]])),
     output_file = Some ''stale'', file_opens = True, file_encodes = (\<lambda>c. c < CHR 0x80)\<rparr>
     = \<lparr>exit_code = 1, file_after = Some []\<rparr>"
  by (simp add: script_def main_def uncaught_def write_lines_def search_events_by_radius_def
      date_defs handle_response_def events_defs re_defs field_defs value_defs)

text \<open>
  C8, amended: on every run that passes the configuration check, in which the fetch and
  the extraction return, and in which the output file can be opened for writing and its
  encoding can encode every character of the text (the console and the device working),
  the output file is rewritten with the
  event lines joined by newlines when there is at least one line and with the empty
  string otherwise, and the exit code is 0 when there is at least one line and 1
  otherwise; the payload \<^verbatim>\<open>{"features":[]}\<close> gives an empty file and exit code 1.
\<close>

theorem run_writes_lines:
  assumes "env_zipcode w = Some z" and "z \<noteq> []"
    and "search_events_by_radius w z RADIUS = Inr events_data"
    and "parse_events events_data = Inr output_lines"
    and "file_opens w"
    and "list_all (file_encodes w) (join [CHR 0x0A] output_lines)"
  shows "script w =
      \<lparr>exit_code = (if output_lines \<noteq> [] then 0 else 1),
       file_after = Some (if output_lines \<noteq> [] then join [CHR 0x0A] output_lines else [])\<rparr>
    \<and> (events_data = JObj [(''features'', JArr [])]
        \<longrightarrow> script w = \<lparr>exit_code = 1, file_after = Some []\<rparr>)"
proof -
  have "script w = write_lines w output_lines"
    using assms(1-4) by (simp add: script_def main_def)
  moreover have "output_lines = []" if "events_data = JObj [(''features'', JArr [])]"
    using that assms(4) by (simp add: events_defs)
  ultimately show ?thesis using assms(5,6) by (auto simp: write_lines_def)
qed

theorem run_writes_lines_witness:
  "env_zipcode \<lparr>env_zipcode = Some ''23228'', clock = \<lparr>year = 2026, month = 11, day = 4\<rparr>,
     http_get = (\<lambda>u. Some ''{}''), json_loads = (\<lambda>s. Some (JObj [(''features'', JArr [])])),
     output_file = Some ''stale'', file_opens = True, file_encodes = (\<lambda>c. True)\<rparr> = Some ''23228''
   \<and> ''23228'' \<noteq> []
   \<and> search_events_by_radius \<lparr>env_zipcode = Some ''23228'',
       clock = \<lparr>year = 2026, month = 11, day = 4\<rparr>,
       http_get = (\<lambda>u. Some ''{}''), json_loads = (\<lambda>s. Some (JObj [(''features'', JArr [])])),
       output_file = Some ''stale'', file_opens = True, file_encodes = (\<lambda>c. True)\<rparr>
       ''23228'' RADIUS = Inr (JObj [(''features'', JArr [])])
   \<and> parse_events (JObj [(''features'', JArr [])]) = Inr []
   \<and> script \<lparr>env_zipcode = Some ''23228'', clock = \<lparr>year = 2026, month = 11, day = 4\<rparr>,
       http_get = (\<lambda>u. Some ''{}''), json_loads = (\<lambda>s. Some (JObj [(''features'', JArr [])])),
       output_file = Some ''stale'', file_opens = True, file_encodes = (\<lambda>c. True)\<rparr>
       = \<lparr>exit_code = 1, file_after = Some []\<rparr>
   \<and> parse_events (JArr [JObj [(''properties'', JObj [(''name'', JStr ''A'')])],
         JObj [(''properties'', JObj [(''name'', JStr ''B'')])]])
       = Inr [''A|||||'', ''B|||||'']
   \<and> list_all (\<lambda>c. c < CHR 0x80) (join [CHR 0x0A] [''A|||||'', ''B|||||''])
   \<and> script \<lparr>env_zipcode = Some ''23228'', clock = \<lparr>year = 2026, month = 11, day = 4\<rparr>,
       http_get = (\<lambda>u. Some ''{}''),
       json_loads = (\<lambda>s. Some (JArr [JObj [(''properties'', JObj [(''name'', JStr ''A'')])],
         JObj [(''properties'', JObj [(''name'', JStr ''B'')])]])),
       output_file = Some ''stale'', file_opens = True, file_encodes = (\<lambda>c. c < CHR 0x80)\<rparr>
       = \<lparr>exit_code = 0, file_after = Some (''A|||||'' @ [CHR 0x0A] @ ''B|||||'')\<rparr>"
proof -
  let ?w = "\<lparr>env_zipcode = Some ''23228'', clock = \<lparr>year = 2026, month = 11, day = 4\<rparr>,
     http_get = (\<lambda>u. Some ''{}''), json_loads = (\<lambda>s. Some (JObj [(''features'', JArr [])])),
     output_file = Some ''stale'', file_opens = True, file_encodes = (\<lambda>c. True)\<rparr>"
  let ?d = "JArr [JObj [(''properties'', JObj [(''name'', JStr ''A'')])],
         JObj [(''properties'', JObj [(''name'', JStr ''B'')])]]"
  let ?v = "\<lparr>env_zipcode = Some ''23228'', clock = \<lparr>year = 2026, month = 11, day = 4\<rparr>,
     http_get = (\<lambda>u. Some ''{}''), json_loads = (\<lambda>s. Some ?d),
     output_file = Some ''stale'', file_opens = True, file_encodes = (\<lambda>c. c < CHR 0x80)\<rparr>"
  have s: "search_events_by_radius ?w ''23228'' RADIUS = Inr (JObj [(''features'', JArr [])])"
    by (simp add: search_events_by_radius_def date_defs handle_response_def)
  have p: "parse_events (JObj [(''features'', JArr [])]) = Inr []"
    by (simp add: events_defs)
  have s': "search_events_by_radius ?v ''23228'' RADIUS = Inr ?d"
    by (simp add: search_events_by_radius_def date_defs handle_response_def)
  have p': "parse_events ?d = Inr [''A|||||'', ''B|||||'']"
    by (simp add: events_defs re_defs field_defs value_defs)
  have e': "list_all (\<lambda>c. c < CHR 0x80) (join [CHR 0x0A] [''A|||||'', ''B|||||''])"
    by simp
  from run_writes_lines [of ?w "''23228''" "JObj [(''features'', JArr [])]" "[]", OF _ _ s p]
    run_writes_lines [of ?v "''23228''" ?d "[''A|||||'', ''B|||||'']", OF _ _ s' p']
  show ?thesis using s p p' e' by simp
qed

text \<open>
  C10 (JSONP unwrapping). A response text that does not begin with \<^verbatim>\<open>banner_callback_\<close>
  goes to the JSON parser as it is, and the result is None when the parser fails. With
  the prefix or without, a text with no \<^verbatim>\<open>{\<close>, or with no \<^verbatim>\<open>}\<close> after its first \<^verbatim>\<open>{\<close>, is
  left as it is by the unwrap step.
\<close>

theorem jsonp_unwrap_only_banner_callback:
  "(\<not> startswith data ''banner_callback_'' \<longrightarrow>
      unwrap data = data
      \<and> handle_response loads data = (case loads data of Some v \<Rightarrow> v | None \<Rightarrow> JNull))
   \<and> (CHR ''{'' \<notin> set data \<longrightarrow> unwrap data = data)
   \<and> (CHR ''}'' \<notin> set (dropWhile (\<lambda>c. c \<noteq> CHR ''{'') data) \<longrightarrow> unwrap data = data)"
proof -
  have a: "unwrap data = data" if "\<not> startswith data ''banner_callback_''"
    using that by (simp add: unwrap_def)
  have b: "unwrap data = data" if "CHR ''{'' \<notin> set data"
    using that by (simp add: unwrap_def py_find_takeWhile Let_def)
  show ?thesis using a b unwrap_noop by (simp add: handle_response_def)
qed

theorem jsonp_unwrap_only_banner_callback_witness:
  "\<not> startswith ''cb({})'' ''banner_callback_''
   \<and> unwrap ''cb({})'' = ''cb({})'' \<and> handle_response (\<lambda>s. None) ''cb({})'' = JNull
   \<and> CHR ''{'' \<notin> set ''banner_callback_1(2)''
   \<and> unwrap ''banner_callback_1(2)'' = ''banner_callback_1(2)''
   \<and> CHR ''}'' \<notin> set (dropWhile (\<lambda>c. c \<noteq> CHR ''{'') ''banner_callback_1(}{)'')
   \<and> unwrap ''banner_callback_1(}{)'' = ''banner_callback_1(}{)''"
  using jsonp_unwrap_only_banner_callback [of "''cb({})''" "\<lambda>s. None"]
    jsonp_unwrap_only_banner_callback [of "''banner_callback_1(2)''"]
    jsonp_unwrap_only_banner_callback [of "''banner_callback_1(}{)''"]
  by simp

text \<open>
  C4, amended: for every record carrying a \<^verbatim>\<open>properties\<close> mapping whose \<^verbatim>\<open>html_content\<close> is
  absent or a string, the event name is the stripped text inside the first
  \<^verbatim>\<open><b>...</b>\<close> span of \<^verbatim>\<open>html_content\<close> (a non-empty text without \<^verbatim>\<open><\<close> between \<^verbatim>\<open><b>\<close>
  and \<^verbatim>\<open></b>\<close>) when there is such a span, and otherwise the \<^verbatim>\<open>name\<close> field of the
  properties; the record adds exactly one line, which starts with the name, when the name
  is true (not empty), and adds nothing to the output when it is not.
\<close>

theorem event_name_rule:
  assumes "map_of ev ''properties'' = Some (JObj p)"
    and "dict_get p ''html_content'' (JStr []) = JStr html"
  shows "(span_at ''<b>'' ''</b>'' html pre t post
        \<and> (\<forall>pre' t' post'. span_at ''<b>'' ''</b>'' html pre' t' post' \<longrightarrow> length pre \<le> length pre')
      \<longrightarrow> event_name_of (dict_get p ''name'' (JStr [])) html = JStr (strip t))
    \<and> ((\<forall>pre' t' post'. \<not> span_at ''<b>'' ''</b>'' html pre' t' post')
      \<longrightarrow> event_name_of (dict_get p ''name'' (JStr [])) html = dict_get p ''name'' (JStr []))
    \<and> parse_event (JObj ev) =
        Inr (if truthy (event_name_of (dict_get p ''name'' (JStr [])) html)
             then Some (py_str (event_name_of (dict_get p ''name'' (JStr [])) html) @ ''|''
                    @ distance_of html @ ''|'' @ dates_of html @ ''|'' @ location_of html @ ''|''
                    @ rep_name_of html @ ''|'' @ event_url_of (event_id_of ev p) html)
             else None)
    \<and> events_loop (JObj ev # events) output_lines =
        events_loop events
          (if truthy (event_name_of (dict_get p ''name'' (JStr [])) html)
           then output_lines @ [py_str (event_name_of (dict_get p ''name'' (JStr [])) html) @ ''|''
                    @ distance_of html @ ''|'' @ dates_of html @ ''|'' @ location_of html @ ''|''
                    @ rep_name_of html @ ''|'' @ event_url_of (event_id_of ev p) html]
           else output_lines)"
  using event_name_first_span [of html pre t post] event_name_no_span [of html]
    parse_event_props [OF assms]
  by (simp add: format_line_def)

theorem event_name_rule_witness:
  "map_of [(''properties'', JObj [(''name'', JStr ''Other''), (''html_content'', JStr ''<b>BBQ Bash</b>'')])]
       ''properties''
     = Some (JObj [(''name'', JStr ''Other''), (''html_content'', JStr ''<b>BBQ Bash</b>'')])
   \<and> dict_get [(''name'', JStr ''Other''), (''html_content'', JStr ''<b>BBQ Bash</b>'')]
       ''html_content'' (JStr []) = JStr ''<b>BBQ Bash</b>''
   \<and> span_at ''<b>'' ''</b>'' ''<b>BBQ Bash</b>'' [] ''BBQ Bash'' []
   \<and> event_name_of (JStr ''Other'') ''<b>BBQ Bash</b>'' = JStr ''BBQ Bash''
   \<and> parse_event (JObj [(''properties'',
         JObj [(''name'', JStr ''Other''), (''html_content'', JStr ''<b>BBQ Bash</b>'')])])
       = Inr (Some ''BBQ Bash|||||'')"
proof -
  let ?p = "[(''name'', JStr ''Other''), (''html_content'', JStr ''<b>BBQ Bash</b>'')]"
  have a: "map_of [(''properties'', JObj ?p)] ''properties'' = Some (JObj ?p)" by simp
  have b: "dict_get ?p ''html_content'' (JStr []) = JStr ''<b>BBQ Bash</b>''"
    by (simp add: dict_get_def)
  have c: "span_at ''<b>'' ''</b>'' ''<b>BBQ Bash</b>'' [] ''BBQ Bash'' []"
    by (simp add: span_at_def)
  have d: "dict_get ?p ''name'' (JStr []) = JStr ''Other''" by (simp add: dict_get_def)
  have e: "strip ''BBQ Bash'' = ''BBQ Bash''" by (simp add: strip_def is_space_def)
  have f: "distance_of ''<b>BBQ Bash</b>'' = [] \<and> dates_of ''<b>BBQ Bash</b>'' = []
      \<and> location_of ''<b>BBQ Bash</b>'' = [] \<and> rep_name_of ''<b>BBQ Bash</b>'' = []
      \<and> event_url_of (event_id_of [(''properties'', JObj ?p)] ?p) ''<b>BBQ Bash</b>'' = []"
    by (simp add: re_defs field_defs value_defs)
  from event_name_rule [OF a b, of "[]" "''BBQ Bash''" "[]"] c
  show ?thesis unfolding d by (simp add: a b e f py_str_def)
qed

text \<open>
  C4 as stated (for every record carrying a \<^verbatim>\<open>properties\<close> mapping; the name filter is
  the only filter) fails on a record whose \<^verbatim>\<open>html_content\<close> is null: it has no span, its
  \<^verbatim>\<open>name\<close> field is \<^verbatim>\<open>X\<close>, and yet it adds no line, because \<^verbatim>\<open>re.search\<close> raises a
  TypeError that the handler of the loop catches.
\<close>

theorem name_filter_counterexample:
  "map_of [(''properties'', JObj [(''name'', JStr ''X''), (''html_content'', JNull)])] ''properties''
     = Some (JObj [(''name'', JStr ''X''), (''html_content'', JNull)])
   \<and> dict_get [(''name'', JStr ''X''), (''html_content'', JNull)] ''name'' (JStr []) = JStr ''X''
   \<and> parse_event (JObj [(''properties'', JObj [(''name'', JStr ''X''), (''html_content'', JNull)])])
       = Inl TypeError
   \<and> parse_events (JArr [JObj [(''properties'', JObj [(''name'', JStr ''X''), (''html_content'', JNull)])]])
       = Inr []"
  by (simp add: events_defs dict_get_def)

text \<open>
  C5, amended: for every record whose \<^verbatim>\<open>html_content\<close> is a string, the identifier is
  the first true value among the record's \<^verbatim>\<open>id\<close> and the properties' \<^verbatim>\<open>id\<close>, \<^verbatim>\<open>evid\<close>
  and \<^verbatim>\<open>event_id\<close>; when there is one, the URL is the event URL with that identifier,
  whatever \<^verbatim>\<open>html_content\<close> holds. When there is none, the identifier is the run of digits
  of the leftmost \<^verbatim>\<open>onclick=\<close>, quote, \<^verbatim>\<open>viewEvent(digits)\<close>, quote, where each quote is of
  either kind (the second attempt of the source is the same pattern and finds nothing
  new); failing that, of the leftmost bare \<^verbatim>\<open>viewEvent(digits)\<close>; failing that, the URL is
  the target of the leftmost \<^verbatim>\<open>href=\<close> whose quoted target holds \<^verbatim>\<open>evr\<close> and, later,
  \<^verbatim>\<open>evid=digits\<close>, taken as it is when it starts with \<^verbatim>\<open>http\<close>, after the host when it
  starts with \<^verbatim>\<open>/\<close>, and after the host and a \<^verbatim>\<open>/\<close> otherwise; and the URL is empty when
  nothing matches. The URL is the last field of the record's line.
\<close>

theorem event_url_rule:
  "(find truthy (id_candidates ev p) = Some i
      \<longrightarrow> event_url_of (event_id_of ev p) html = EVENT_URL @ py_str i)
   \<and> (find truthy (id_candidates ev p) = None
      \<and> onclick_at html pre d post
      \<and> (\<forall>pre' d' post'. onclick_at html pre' d' post' \<longrightarrow> length pre \<le> length pre')
      \<longrightarrow> event_url_of (event_id_of ev p) html = EVENT_URL @ d)
   \<and> (find truthy (id_candidates ev p) = None
      \<and> (\<forall>pre' d' post'. \<not> onclick_at html pre' d' post')
      \<and> view_at html pre d post
      \<and> (\<forall>pre' d' post'. view_at html pre' d' post' \<longrightarrow> length pre \<le> length pre')
      \<longrightarrow> event_url_of (event_id_of ev p) html = EVENT_URL @ d)
   \<and> (find truthy (id_candidates ev p) = None
      \<and> (\<forall>pre' d' post'. \<not> view_at html pre' d' post')
      \<and> href_at html pre t post
      \<and> (\<forall>pre' t' post'. href_at html pre' t' post' \<longrightarrow> length pre \<le> length pre')
      \<longrightarrow> event_url_of (event_id_of ev p) html = absolute_url t)
   \<and> (find truthy (id_candidates ev p) = None
      \<and> (\<forall>pre' d' post'. \<not> view_at html pre' d' post')
      \<and> (\<forall>pre' t' post'. \<not> href_at html pre' t' post')
      \<longrightarrow> event_url_of (event_id_of ev p) html = [])
   \<and> (map_of ev ''properties'' = Some (JObj p)
      \<and> dict_get p ''html_content'' (JStr []) = JStr html
      \<and> parse_event (JObj ev) = Inr (Some line)
    \<longrightarrow> line = py_str (event_name_of (dict_get p ''name'' (JStr [])) html) @ ''|''
          @ distance_of html @ ''|'' @ dates_of html @ ''|'' @ location_of html @ ''|''
          @ rep_name_of html @ ''|'' @ event_url_of (event_id_of ev p) html)"
proof -
  have l: "line = py_str (event_name_of (dict_get p ''name'' (JStr [])) html) @ ''|''
          @ distance_of html @ ''|'' @ dates_of html @ ''|'' @ location_of html @ ''|''
          @ rep_name_of html @ ''|'' @ event_url_of (event_id_of ev p) html"
    if "map_of ev ''properties'' = Some (JObj p)"
      "dict_get p ''html_content'' (JStr []) = JStr html"
      "parse_event (JObj ev) = Inr (Some line)"
    using that parse_event_props [OF that(1,2)]
    by (simp add: format_line_def split: if_splits)
  have a: "event_url_of (event_id_of ev p) html = EVENT_URL @ py_str i"
    if "find truthy (id_candidates ev p) = Some i"
    using event_id_found [OF that] url_of_id by simp
  note n = event_id_not_found [of ev p]
  show ?thesis
    using l a url_onclick [of "event_id_of ev p" html pre d post]
      url_view [of "event_id_of ev p" html pre d post]
      url_href [of "event_id_of ev p" html pre t post]
      url_nothing [of "event_id_of ev p" html] n
    by blast
qed

theorem event_url_rule_witness:
  "find truthy (id_candidates [] [(''evid'', JStr ''39161'')]) = Some (JStr ''39161'')
   \<and> event_url_of (event_id_of [] [(''evid'', JStr ''39161'')]) ''<a onclick=\"viewEvent(999)\">''
       = ''https://mms.kcbs.us/members/evr/reg_event_kcba.php?orgcode=KCBA&evid=39161''
   \<and> find truthy (id_candidates [] []) = None
   \<and> onclick_at ''onclick=\"viewEvent(42)\">'' [] ''42'' ''>''
   \<and> event_url_of (event_id_of [] []) ''onclick=\"viewEvent(42)\">''
       = ''https://mms.kcbs.us/members/evr/reg_event_kcba.php?orgcode=KCBA&evid=42''
   \<and> view_at ''viewEvent(7);'' [] ''7'' '';''
   \<and> event_url_of (event_id_of [] []) ''viewEvent(7);''
       = ''https://mms.kcbs.us/members/evr/reg_event_kcba.php?orgcode=KCBA&evid=7''
   \<and> href_at ''href=\"/members/evr/reg.php?evid=5\">'' [] ''/members/evr/reg.php?evid=5'' ''>''
   \<and> event_url_of (event_id_of [] []) ''href=\"/members/evr/reg.php?evid=5\">''
       = ''https://mms.kcbs.us/members/evr/reg.php?evid=5''
   \<and> event_url_of (event_id_of [] []) ''no link'' = []"
proof -
  let ?h1 = "''<a onclick=\"viewEvent(999)\">''"
  let ?h2 = "''onclick=\"viewEvent(42)\">''"
  let ?h3 = "''viewEvent(7);''"
  let ?h4 = "''href=\"/members/evr/reg.php?evid=5\">''"
  let ?h5 = "''no link''"
  have i1: "find truthy (id_candidates [] [(''evid'', JStr ''39161'')]) = Some (JStr ''39161'')"
    by (simp add: id_candidates_def dict_get_def)
  have i0: "find truthy (id_candidates [] []) = None"
    by (simp add: id_candidates_def dict_get_def)
  have o2: "onclick_at ?h2 [] ''42'' ''>''"
    unfolding onclick_at_def
    by (rule exI [of _ dquote], rule exI [of _ dquote])
      (simp add: is_quote_def digits_def is_digit_def dquote_def)
  have no3: "\<forall>pre' d' post'. \<not> onclick_at ?h3 pre' d' post'"
    using search_ONCLICK_none [of ?h3] by (simp add: re_defs value_defs)
  have v3: "view_at ?h3 [] ''7'' '';''"
    by (simp add: view_at_def digits_def is_digit_def)
  have nv4: "\<forall>pre' d' post'. \<not> view_at ?h4 pre' d' post'"
    using search_VIEW_none [of ?h4] by (simp add: re_defs value_defs)
  have h4: "href_at ?h4 [] ''/members/evr/reg.php?evid=5'' ''>''"
    unfolding href_at_def
    by (rule exI [of _ dquote], rule exI [of _ dquote], rule exI [of _ "''/members/''"],
        rule exI [of _ "''/reg.php?''"], rule exI [of _ "''5''"], rule exI [of _ "[]"])
      (simp add: is_quote_def digits_def is_digit_def dquote_def squote_def)
  have nv5: "\<forall>pre' d' post'. \<not> view_at ?h5 pre' d' post'"
    using search_VIEW_none [of ?h5] by (simp add: re_defs value_defs)
  have nh5: "\<forall>pre' t' post'. \<not> href_at ?h5 pre' t' post'"
    using search_HREF_none [of ?h5] by (simp add: re_defs value_defs)
  from event_url_rule [of "[]" "[(''evid'', JStr ''39161'')]" "JStr ''39161''" ?h1]
    event_url_rule [of "[]" "[]" _ ?h2 "[]" "''42''" "''>''"]
    event_url_rule [of "[]" "[]" _ ?h3 "[]" "''7''" "'';''"]
    event_url_rule [of "[]" "[]" _ ?h4 "[]" _ _ "''/members/evr/reg.php?evid=5''"]
    event_url_rule [of "[]" "[]" _ ?h5]
    i1 i0 o2 no3 v3 nv4 h4 nv5 nh5
  show ?thesis
    by (simp add: EVENT_URL_def HOST_def absolute_url_def py_str_def)
qed

text \<open>
  C5 as stated fails on three texts, each for a record without identifier. A hyperlink
  whose target \<^verbatim>\<open>/x?evid=5\<close> contains \<^verbatim>\<open>evid=5\<close> gives the empty URL, not the target after
  the host: the pattern also asks for \<^verbatim>\<open>evr\<close> before \<^verbatim>\<open>evid=\<close>. A target that is neither
  absolute nor root-relative is not used directly: it is put after the host and a
  \<^verbatim>\<open>/\<close>. And a single-quoted \<^verbatim>\<open>onclick\<close> that stands before a double-quoted one wins (the
  id is 1, not 2): the first pattern takes either quote.
\<close>

theorem event_url_counterexample:
  "event_url_of JNull ''<a href=\"/x?evid=5\">'' = []
   \<and> event_url_of JNull ''<a href=\"event.php?evr=1&evid=5\">''
       = ''https://mms.kcbs.us/event.php?evr=1&evid=5''
   \<and> event_url_of JNull
        (''onclick='' @ [squote] @ ''viewEvent(1)'' @ [squote] @ '' onclick=\"viewEvent(2)\"'')
       = ''https://mms.kcbs.us/members/evr/reg_event_kcba.php?orgcode=KCBA&evid=1''"
  by (simp add: re_defs field_defs value_defs)

text \<open>
  C6, amended: for every record whose \<^verbatim>\<open>html_content\<close> is a string, the location is the
  stripped text of the leftmost place where \<^verbatim>\<open></a>\<close>, a non-empty text without \<^verbatim>\<open><\<close>,
  \<^verbatim>\<open><br\<close>, a text without \<^verbatim>\<open>>\<close>, and \<^verbatim>\<open>>UNITED STATES\<close> stand one after the other (so the
  \<^verbatim>\<open></a>\<close> is the last one before that marker); when there is no such place, the stripped
  text of the leftmost place where \<^verbatim>\<open></a>\<close>, a run of letters, commas and whitespace, two
  uppercase letters, whitespace, digits, and \<^verbatim>\<open><br\<close> stand one after the other; and the
  empty string when there is neither. The location is the fourth field of the record's
  line.
\<close>

theorem location_rule:
  "(loc_at html pre t post
      \<and> (\<forall>pre' t' post'. loc_at html pre' t' post' \<longrightarrow> length pre \<le> length pre')
    \<longrightarrow> location_of html = strip t)
   \<and> ((\<forall>pre' t' post'. \<not> loc_at html pre' t' post')
      \<and> loc2_at html pre t post
      \<and> (\<forall>pre' t' post'. loc2_at html pre' t' post' \<longrightarrow> length pre \<le> length pre')
    \<longrightarrow> location_of html = strip t)
   \<and> ((\<forall>pre' t' post'. \<not> loc_at html pre' t' post')
      \<and> (\<forall>pre' t' post'. \<not> loc2_at html pre' t' post')
    \<longrightarrow> location_of html = [])
   \<and> (map_of ev ''properties'' = Some (JObj p)
      \<and> dict_get p ''html_content'' (JStr []) = JStr html
      \<and> parse_event (JObj ev) = Inr (Some line)
    \<longrightarrow> line = py_str (event_name_of (dict_get p ''name'' (JStr [])) html) @ ''|''
          @ distance_of html @ ''|'' @ dates_of html @ ''|'' @ location_of html @ ''|''
          @ rep_name_of html @ ''|'' @ event_url_of (event_id_of ev p) html)"
proof -
  have "line = py_str (event_name_of (dict_get p ''name'' (JStr [])) html) @ ''|''
          @ distance_of html @ ''|'' @ dates_of html @ ''|'' @ location_of html @ ''|''
          @ rep_name_of html @ ''|'' @ event_url_of (event_id_of ev p) html"
    if "map_of ev ''properties'' = Some (JObj p)"
      "dict_get p ''html_content'' (JStr []) = JStr html"
      "parse_event (JObj ev) = Inr (Some line)"
    using that parse_event_props [OF that(1,2)]
    by (simp add: format_line_def split: if_splits)
  then show ?thesis
    using location_first [of html pre t post] location_second [of html pre t post]
      location_none [of html]
    by blast
qed

theorem location_rule_witness:
  "loc_at ''</a> Austin, TX 78701<br />UNITED STATES'' [] '' Austin, TX 78701'' []
   \<and> location_of ''</a> Austin, TX 78701<br />UNITED STATES'' = ''Austin, TX 78701''
   \<and> loc2_at ''</a>Austin, TX<br>'' [] ''Austin, TX'' ''>''
   \<and> location_of ''</a>Austin, TX<br>'' = ''Austin, TX''
   \<and> location_of ''<b>Smokeout</b>'' = []"
proof -
  let ?h1 = "''</a> Austin, TX 78701<br />UNITED STATES''"
  let ?h2 = "''</a>Austin, TX<br>''"
  let ?h3 = "''<b>Smokeout</b>''"
  have a: "loc_at ?h1 [] '' Austin, TX 78701'' []"
    unfolding loc_at_def by (rule exI [of _ "'' /''"]) simp
  have b: "loc2_at ?h2 [] ''Austin, TX'' ''>''"
    unfolding loc2_at_def city_state_zip_def
    apply (rule conjI)
     apply simp
    apply (rule exI [of _ "''Austin, ''"], rule exI [of _ "''TX''"], rule exI [of _ "[]"],
        rule exI [of _ "[]"])
    by (simp add: is_upper_def is_lower_def is_space_def)
  have n2: "\<forall>pre' t' post'. \<not> loc_at ?h2 pre' t' post'"
    using search_LOC_none [of ?h2] by (simp add: re_defs value_defs)
  have n3: "\<forall>pre' t' post'. \<not> loc_at ?h3 pre' t' post'"
    using search_LOC_none [of ?h3] by (simp add: re_defs value_defs)
  have m3: "\<forall>pre' t' post'. \<not> loc2_at ?h3 pre' t' post'"
    using search_LOC2_none [of ?h3] by (simp add: re_defs value_defs)
  have s1: "strip '' Austin, TX 78701'' = ''Austin, TX 78701''"
    by (simp add: strip_def is_space_def)
  have s2: "strip ''Austin, TX'' = ''Austin, TX''"
    by (simp add: strip_def is_space_def)
  from location_rule [of ?h1 "[]" "'' Austin, TX 78701''" "[]"]
    location_rule [of ?h2 "[]" "''Austin, TX''" "''>''"]
    location_rule [of ?h3]
    a b n2 n3 m3
  show ?thesis by (simp add: s1 s2)
qed

text \<open>
  C6 as stated fails on two texts. The text between \<^verbatim>\<open></a>\<close> and the marker is kept
  without its surrounding whitespace, so the location is not the text that follows the
  close-tag as it stands. And with two markers, the location comes from the first place
  that matches, not from the last \<^verbatim>\<open></a>\<close> of the text.
\<close>

theorem location_counterexample:
  "''</a> Austin, TX 78701<br />UNITED STATES'' = ''</a>'' @ '' Austin, TX 78701'' @ ''<br />UNITED STATES''
   \<and> location_of ''</a> Austin, TX 78701<br />UNITED STATES'' = ''Austin, TX 78701''
   \<and> location_of ''</a> Austin, TX 78701<br />UNITED STATES'' \<noteq> '' Austin, TX 78701''
   \<and> ''</a>Waco, TX<br>UNITED STATES</a>Austin, TX<br>UNITED STATES''
       = ''</a>Waco, TX<br>UNITED STATES'' @ ''</a>'' @ ''Austin, TX'' @ ''<br>UNITED STATES''
   \<and> location_of ''</a>Waco, TX<br>UNITED STATES</a>Austin, TX<br>UNITED STATES'' = ''Waco, TX''"
  by (simp add: re_defs field_defs value_defs)

text \<open>
  C7 (the date range of the request). For every date the clock can show from the year
  1000 on, as long as the day 365 days later is still a date (not after 9999-12-31):
  \<^verbatim>\<open>get_date_range\<close> returns the clock's date and a valid date whose day number is
  exactly 365 more, both in the form \<^verbatim>\<open>MM/DD/YYYY\<close>; these are the \<^verbatim>\<open>evr_begin\<close> and
  \<^verbatim>\<open>evr_end\<close> parameters of the request, and the request of an invocation is built from
  the clock of that invocation alone.
\<close>

theorem date_range_365_days:
  assumes "valid_date today" and "1000 \<le> year today"
    and "toordinal today + 365 \<le> toordinal MAXDATE"
  shows "\<exists>end_day.
      get_date_range today = Inr (mdy_text today, mdy_text end_day)
      \<and> valid_date end_day \<and> toordinal end_day = toordinal today + 365
      \<and> map_of (search_params zipcode radius (mdy_text today) (mdy_text end_day)) ''evr_begin''
          = Some (mdy_text today)
      \<and> map_of (search_params zipcode radius (mdy_text today) (mdy_text end_day)) ''evr_end''
          = Some (mdy_text end_day)
      \<and> (clock w = today \<longrightarrow>
          search_events_by_radius w zipcode radius =
            (case http_get w
                (KCBS_SEARCH_URL @ ''?''
                  @ urlencode (search_params zipcode radius (mdy_text today) (mdy_text end_day))) of
               None \<Rightarrow> Inr JNull
             | Some data \<Rightarrow> Inr (handle_response (json_loads w) data)))"
proof -
  from add_days_ord [OF assms(1), of 365] assms(3) obtain e where
    e: "add_days 365 today = Inr e" "valid_date e" "toordinal e = toordinal today + 365"
    by auto
  have g: "get_date_range today = Inr (mdy_text today, mdy_text e)"
    using e(1,2) assms(1) by (simp add: get_date_range_def strftime_mdy_text)
  have "map_of (search_params zipcode radius (mdy_text today) (mdy_text e)) ''evr_begin''
      = Some (mdy_text today)"
    "map_of (search_params zipcode radius (mdy_text today) (mdy_text e)) ''evr_end''
      = Some (mdy_text e)"
    by (simp_all add: search_params_def)
  moreover have "search_events_by_radius w zipcode radius =
            (case http_get w
                (KCBS_SEARCH_URL @ ''?''
                  @ urlencode (search_params zipcode radius (mdy_text today) (mdy_text e))) of
               None \<Rightarrow> Inr JNull
             | Some data \<Rightarrow> Inr (handle_response (json_loads w) data))"
    if "clock w = today"
    using search_with_range [of w "mdy_text today" "mdy_text e"] g that
    by (simp add: request_url_def)
  ultimately show ?thesis using g e(2,3) by blast
qed

theorem date_range_365_days_witness:
  "valid_date \<lparr>year = 2026, month = 11, day = 4\<rparr>
   \<and> 1000 \<le> year \<lparr>year = 2026, month = 11, day = 4\<rparr>
   \<and> toordinal \<lparr>year = 2026, month = 11, day = 4\<rparr> + 365 \<le> toordinal MAXDATE
   \<and> get_date_range \<lparr>year = 2026, month = 11, day = 4\<rparr> = Inr (''11/04/2026'', ''11/04/2027'')
   \<and> toordinal \<lparr>year = 2027, month = 11, day = 4\<rparr>
       = toordinal \<lparr>year = 2026, month = 11, day = 4\<rparr> + 365"
proof -
  have u12: "[Suc 0..<12] = [1, 2, 3, 4, 5, 6, 7, 8, 9, 10, 11 :: nat]" by code_simp
  have u11: "[Suc 0..<11] = [1, 2, 3, 4, 5, 6, 7, 8, 9, 10 :: nat]" by code_simp
  have v: "valid_date \<lparr>year = 2026, month = 11, day = 4\<rparr>"
    by (simp add: valid_date_def days_in_month_def)
  have o: "toordinal \<lparr>year = 2026, month = 11, day = 4\<rparr> = 739924"
    "toordinal \<lparr>year = 2027, month = 11, day = 4\<rparr> = 740289"
    "toordinal MAXDATE = 3652059"
    by (simp_all add: toordinal_def days_before_year_def days_before_month_def days_in_month_def
        is_leap_def MAXDATE_def u11 u12)
  have g: "get_date_range \<lparr>year = 2026, month = 11, day = 4\<rparr> = Inr (''11/04/2026'', ''11/04/2027'')"
    by (simp add: date_defs dec_nat.simps digit_char_def)
  from date_range_365_days [of "\<lparr>year = 2026, month = 11, day = 4\<rparr>"] v o g
  show ?thesis by simp
qed

end
